theory Spec2Isabelle
  imports Complex_Main "HOL-Library.Multiset" "HOL-Library.AList"
begin

section \<open>Concordance index for right-censored data (eval/cindex.py)\<close>

text \<open>
  A shallow embedding of \<^verbatim>\<open>src/eval/cindex.py\<close>. Arrays are lists, the dictionary
  \<^verbatim>\<open>comparable\<close> is an association list in insertion order (the order in which Python
  iterates over it), exceptions are values of the type \<open>error\<close>, and counters are
  unbounded integers.

  Numbers. The finite binary64 values are rationals, so times and estimates are of type
  \<open>rat\<close>; comparisons on them are exact. The accumulators \<^verbatim>\<open>numerator\<close> and
  \<^verbatim>\<open>denominator\<close> only ever hold sums of \<open>w * n\<close> and \<open>0.5 * w * n\<close> for integer counts
  \<open>n\<close>; with the unit weights of \<^verbatim>\<open>concordance_index_censored\<close> these are integers and
  half-integers, which binary64 holds exactly below \<open>2 ^ 53\<close>, so they are computed in
  exact arithmetic. The two operations of the core that do round, the subtraction in the
  tie test and the final division, are rounded to the nearest binary64 value (ties to
  even) by \<open>fl64\<close>, and so is every operation by which \<^verbatim>\<open>concordance_index\<close> collapses a
  row of predictions; the exponent range is taken as unbounded. A division by zero is not
  an exception for numpy scalars: it yields \<open>NaN\<close> or an infinity.
\<close>

subsection \<open>Errors and floating-point results\<close>

datatype error =
    ValueError string
  | NoComparablePairException string
  | AssertionError "nat option"
  | IndexError string
  | TypeError string

datatype fval = Fin rat | PosInf | NegInf | NaN

function bit_length :: "int \<Rightarrow> int" where
  "bit_length n = (if n \<le> 0 then 0 else 1 + bit_length (n div 2))"
  by pat_completeness auto
termination
  by (relation "measure nat") auto

declare bit_length.simps [simp del]

definition binexp :: "rat \<Rightarrow> int" where
  \<comment> \<open>for \<open>0 < x\<close>: the integer \<open>e\<close> with \<open>2 ^ e \<le> x < 2 ^ (e + 1)\<close>\<close>
  "binexp x = (if 1 \<le> x then bit_length \<lfloor>x\<rfloor> - 1
               else - bit_length (\<lceil>1 / x\<rceil> - 1))"

definition round_half_even :: "rat \<Rightarrow> int" where
  "round_half_even x =
     (let f = \<lfloor>x\<rfloor>; r = x - of_int f
      in if r < 1 / 2 then f else if 1 / 2 < r then f + 1 else if even f then f else f + 1)"

definition fl64 :: "rat \<Rightarrow> rat" where
  \<comment> \<open>round to nearest, ties to even, with a significand of 53 bits\<close>
  "fl64 x =
     (if x = 0 then 0
      else (let e = binexp \<bar>x\<bar>; m = round_half_even (\<bar>x\<bar> * 2 powi (52 - e))
            in sgn x * of_int m * 2 powi (e - 52)))"

definition fsub :: "rat \<Rightarrow> rat \<Rightarrow> rat" where
  "fsub x y = fl64 (x - y)"

definition fdiv :: "rat \<Rightarrow> rat \<Rightarrow> fval" where
  \<comment> \<open>\<^verbatim>\<open>x / y\<close> on numpy float64 scalars\<close>
  "fdiv x y =
     (if y = 0 then (if x = 0 then NaN else if 0 < x then PosInf else NegInf)
      else Fin (fl64 (x / y)))"

definition tied_tol_1e_08 :: rat where
  \<comment> \<open>the binary64 value of the literal \<^verbatim>\<open>1e-08\<close>\<close>
  "tied_tol_1e_08 = 3022314549036573 / 302231454903657293676544"

subsection \<open>numpy indexing\<close>

definition take_idx :: "'a list \<Rightarrow> nat list \<Rightarrow> 'a list" where
  \<comment> \<open>\<^verbatim>\<open>a[idx]\<close> for an integer index array\<close>
  "take_idx a idx = map (\<lambda>k. a ! k) idx"

definition slice :: "'a list \<Rightarrow> nat \<Rightarrow> nat \<Rightarrow> 'a list" where
  \<comment> \<open>\<^verbatim>\<open>a[i:j]\<close>\<close>
  "slice a i j = take (j - i) (drop i a)"

definition bool_index :: "'a list \<Rightarrow> bool list \<Rightarrow> 'a list" where
  \<comment> \<open>\<^verbatim>\<open>a[mask]\<close> for a boolean mask of the length of \<open>a\<close>\<close>
  "bool_index a msk = map fst (filter snd (zip a msk))"

definition count_true :: "bool list \<Rightarrow> int" where
  \<comment> \<open>\<^verbatim>\<open>mask.sum()\<close>\<close>
  "count_true msk = int (length (filter id msk))"

definition assign_from :: "bool list \<Rightarrow> nat \<Rightarrow> bool \<Rightarrow> bool list" where
  \<comment> \<open>\<^verbatim>\<open>mask[j:] = v\<close>\<close>
  "assign_from msk j v = take j msk @ replicate (length msk - j) v"

definition assign_slice :: "bool list \<Rightarrow> nat \<Rightarrow> nat \<Rightarrow> bool list \<Rightarrow> bool list" where
  \<comment> \<open>\<^verbatim>\<open>mask[i:j] = vs\<close>, where \<open>vs\<close> has \<open>j - i\<close> elements\<close>
  "assign_slice msk i j vs = take i msk @ vs @ drop j msk"

subsection \<open>\<^verbatim>\<open>_check_inputs\<close>\<close>

text \<open>
  The arrays arrive typed: a list of booleans, and two lists of finite numbers. What is
  left of the external validators is \<^verbatim>\<open>check_consistent_length\<close> (equal lengths) and
  the default \<^verbatim>\<open>ensure_min_samples=1\<close> of \<^verbatim>\<open>check_array\<close>, which rejects an empty array;
  the dtype test on the event indicator always passes on a list of booleans.
\<close>

definition check_inputs ::
  "bool list \<Rightarrow> rat list \<Rightarrow> rat list \<Rightarrow> error + (bool list \<times> rat list \<times> rat list)" where
  "check_inputs event_indicator event_time estimate =
     (if \<not> (length event_indicator = length event_time \<and> length event_time = length estimate)
      then Inl (ValueError ''Found input variables with inconsistent numbers of samples'')
      else if length event_indicator < 1
      then Inl (ValueError ''Found array with 0 sample(s) while a minimum of 1 is required.'')
      else if length event_time < 2
      then Inl (ValueError ''Need a minimum of two samples'')
      else if True \<notin> set event_indicator
      then Inl (ValueError ''All samples are censored'')
      else Inr (event_indicator, event_time, estimate))"

subsection \<open>\<^verbatim>\<open>_get_comparable\<close>\<close>

type_synonym comparable = "(nat \<times> bool list) list"

function find_end :: "rat list \<Rightarrow> nat list \<Rightarrow> rat \<Rightarrow> nat \<Rightarrow> nat" where
  \<comment> \<open>the inner \<^verbatim>\<open>while\<close> loop, from the current value of \<^verbatim>\<open>end\<close>\<close>
  "find_end event_time order time_i en =
     (if en < length event_time \<and> event_time ! (order ! en) = time_i
      then find_end event_time order time_i (en + 1)
      else en)"
  by pat_completeness auto
termination
  by (relation "measure (\<lambda>(event_time, order, time_i, en). length event_time - en)") auto

declare find_end.simps [simp del]

definition group_mask :: "nat \<Rightarrow> nat \<Rightarrow> nat \<Rightarrow> bool list \<Rightarrow> bool list" where
  "group_mask n_samples i en censored_at_same_time =
     assign_slice (assign_from (replicate n_samples False) en True) i en censored_at_same_time"

definition for_body ::
  "bool list \<Rightarrow> nat list \<Rightarrow> nat \<Rightarrow> nat \<Rightarrow> nat \<Rightarrow> bool list \<Rightarrow> nat
    \<Rightarrow> comparable \<times> int \<Rightarrow> comparable \<times> int" where
  \<comment> \<open>one pass of \<^verbatim>\<open>for j in range(i, end)\<close> on the pair \<open>(comparable, tied_time)\<close>\<close>
  "for_body event_indicator order n_samples i en censored_at_same_time j st =
     (if event_indicator ! (order ! j)
      then (AList.update j (group_mask n_samples i en censored_at_same_time) (fst st),
            snd st + count_true censored_at_same_time)
      else st)"

lemma find_end_ge: "en \<le> find_end event_time order time_i en"
proof (induction event_time order time_i en rule: find_end.induct)
  case (1 event_time order time_i en)
  show ?case
  proof (cases "en < length event_time \<and> event_time ! (order ! en) = time_i")
    case True
    with 1 have "en + 1 \<le> find_end event_time order time_i (en + 1)" by simp
    moreover from True
    have "find_end event_time order time_i en = find_end event_time order time_i (en + 1)"
      by (subst find_end.simps) simp
    ultimately show ?thesis by simp
  next
    case False
    then have "find_end event_time order time_i en = en"
      by (subst find_end.simps) auto
    then show ?thesis by simp
  qed
qed

function gc_loop ::
  "bool list \<Rightarrow> rat list \<Rightarrow> nat list \<Rightarrow> nat \<Rightarrow> comparable \<times> int \<Rightarrow> comparable \<times> int" where
  \<comment> \<open>the outer \<^verbatim>\<open>while i < n_samples - 1\<close> loop\<close>
  "gc_loop event_indicator event_time order i st =
     (if int i < int (length event_time) - 1 then
        (let time_i = event_time ! (order ! i);
             start = i + 1;
             en = find_end event_time order time_i start;
             event_at_same_time = take_idx event_indicator (slice order i en);
             censored_at_same_time = map Not event_at_same_time
         in gc_loop event_indicator event_time order en
              (fold (for_body event_indicator order (length event_time) i en
                       censored_at_same_time) [i..<en] st))
      else st)"
  by pat_completeness auto
termination
  apply (relation "measure (\<lambda>(event_indicator, event_time, order, i, st). length event_time - i)")
   apply simp
  subgoal for event_indicator event_time order i
    using find_end_ge [of "Suc i" event_time order "event_time ! (order ! i)"] by simp
  done

declare gc_loop.simps [simp del]

definition get_comparable :: "bool list \<Rightarrow> rat list \<Rightarrow> nat list \<Rightarrow> comparable \<times> int" where
  "get_comparable event_indicator event_time order =
     gc_loop event_indicator event_time order 0 ([], 0)"

subsection \<open>\<^verbatim>\<open>_estimate_concordance_index\<close>\<close>

record acc =
  numerator :: rat
  denominator :: rat
  concordant :: int
  discordant :: int
  tied_risk :: int

definition acc0 :: acc where
  "acc0 = \<lparr>numerator = 0, denominator = 0, concordant = 0, discordant = 0, tied_risk = 0\<rparr>"

definition is_tie :: "rat \<Rightarrow> rat \<Rightarrow> rat \<Rightarrow> bool" where
  \<comment> \<open>\<^verbatim>\<open>numpy.absolute(est - est_i) <= tied_tol\<close>, for one element of \<^verbatim>\<open>est\<close>\<close>
  "is_tie tied_tol est_i x = (\<bar>fsub x est_i\<bar> \<le> tied_tol)"

text \<open>
  The loop \<^verbatim>\<open>for ind, mask in comparable.items()\<close>. Each pass first reads
  \<^verbatim>\<open>estimate[order[ind]]\<close>, \<^verbatim>\<open>event_indicator[order[ind]]\<close>, \<^verbatim>\<open>weights[order[ind]]\<close> and
  \<^verbatim>\<open>estimate[order[mask]]\<close>, in this order, and any of them raises IndexError when an
  index is out of range or the mask has another length than \<^verbatim>\<open>order\<close>; only then comes
  the \<^verbatim>\<open>assert\<close>. Python executes an \<^verbatim>\<open>assert\<close> only while \<^verbatim>\<open>__debug__\<close> is true, which
  is the default; under \<^verbatim>\<open>python -O\<close> the statement is compiled away. The flag \<open>debug\<close>
  is \<^verbatim>\<open>__debug__\<close>, and \<open>accumulate\<close> is the loop as Python runs it by default.

  The sums of the loop are exact. With the unit weights that
  \<^verbatim>\<open>concordance_index_censored\<close> passes, its only caller, this is what binary64 computes
  (integers and half-integers below \<open>2 ^ 53\<close>); for other weights the source rounds every
  product and sum, which is not modelled here, and the claims below that speak of the
  values of \<open>numerator\<close> and \<open>denominator\<close> fix the unit weights.
\<close>

fun accumulate_loop ::
  "bool \<Rightarrow> bool list \<Rightarrow> rat list \<Rightarrow> rat list \<Rightarrow> rat \<Rightarrow> nat list \<Rightarrow> comparable \<Rightarrow> acc
    \<Rightarrow> error + acc"
  where
  "accumulate_loop debug event_indicator estimate weights tied_tol order [] a = Inr a"
| "accumulate_loop debug event_indicator estimate weights tied_tol order ((ind, msk) # rest) a =
     (if \<not> ind < length order
      then Inl (IndexError ''index is out of bounds'')
      else if \<not> order ! ind < length estimate
      then Inl (IndexError ''index is out of bounds'')
      else if \<not> order ! ind < length event_indicator
      then Inl (IndexError ''index is out of bounds'')
      else if \<not> order ! ind < length weights
      then Inl (IndexError ''index is out of bounds'')
      else if length msk \<noteq> length order
      then Inl (IndexError ''boolean index did not match indexed array'')
      else if \<not> list_all (\<lambda>k. k < length estimate) (bool_index order msk)
      then Inl (IndexError ''index is out of bounds'')
      else
        (let est_i = estimate ! (order ! ind);
             event_i = event_indicator ! (order ! ind);
             w_i = weights ! (order ! ind);
             est = take_idx estimate (bool_index order msk)
         in if debug \<and> \<not> event_i then Inl (AssertionError (Some (order ! ind)))
            else
              (let ties = map (is_tie tied_tol est_i) est;
                   n_ties = count_true ties;
                   con = map (\<lambda>x. x < est_i) est;
                   n_con = count_true (bool_index con (map Not ties))
               in accumulate_loop debug event_indicator estimate weights tied_tol order rest
                    (a\<lparr>numerator := numerator a + (w_i * of_int n_con + (1 / 2) * w_i * of_int n_ties),
                       denominator := denominator a + w_i * of_int (count_true msk),
                       tied_risk := tied_risk a + n_ties,
                       concordant := concordant a + n_con,
                       discordant := discordant a + (int (length est) - n_con - n_ties)\<rparr>))))"

definition accumulate ::
  "bool list \<Rightarrow> rat list \<Rightarrow> rat list \<Rightarrow> rat \<Rightarrow> nat list \<Rightarrow> comparable \<Rightarrow> acc \<Rightarrow> error + acc"
  where
  "accumulate event_indicator estimate weights tied_tol order cs a =
     accumulate_loop True event_indicator estimate weights tied_tol order cs a"

text \<open>
  \<open>order\<close> stands for the result of \<^verbatim>\<open>numpy.argsort(event_time)\<close>, which the source
  computes first: numpy fixes it only up to the order of equal times, so it is an
  argument here, and the theorems hold for every \<open>order\<close> that \<open>is_argsort\<close> admits.
\<close>

definition estimate_concordance_index ::
  "bool list \<Rightarrow> rat list \<Rightarrow> rat list \<Rightarrow> rat list \<Rightarrow> rat \<Rightarrow> nat list
    \<Rightarrow> error + (fval \<times> int \<times> int \<times> int \<times> int)" where
  "estimate_concordance_index event_indicator event_time estimate weights tied_tol order =
     (case get_comparable event_indicator event_time order of
        (comparable, tied_time) \<Rightarrow>
          if length comparable = 0
          then Inl (NoComparablePairException
                 ''Data has no comparable pairs, cannot estimate concordance index.'')
          else
            (case accumulate event_indicator estimate weights tied_tol order comparable acc0 of
               Inl e \<Rightarrow> Inl e
             | Inr a \<Rightarrow>
                 Inr (fdiv (numerator a) (denominator a),
                      concordant a, discordant a, tied_risk a, tied_time)))"

subsection \<open>\<^verbatim>\<open>concordance_index_censored\<close>\<close>

definition concordance_index_censored ::
  "bool list \<Rightarrow> rat list \<Rightarrow> rat list \<Rightarrow> rat \<Rightarrow> nat list
    \<Rightarrow> error + (fval \<times> int \<times> int \<times> int \<times> int)" where
  "concordance_index_censored event_indicator event_time estimate tied_tol order =
     (case check_inputs event_indicator event_time estimate of
        Inl e \<Rightarrow> Inl e
      | Inr (event_indicator', event_time', estimate') \<Rightarrow>
          (let w = replicate (length estimate') 1
           in estimate_concordance_index event_indicator' event_time' estimate' w tied_tol order))"

subsection \<open>\<^verbatim>\<open>concordance_index\<close>\<close>

text \<open>
  \<^verbatim>\<open>y_true\<close> is an array of shape \<open>(n, 2)\<close>, a list of rows (time, event); \<^verbatim>\<open>y_pred\<close> is
  an array of one or two dimensions, \<open>Arr2 T rows\<close> having \<open>T\<close> columns. The keyword
  arguments are read only at \<^verbatim>\<open>type_pred\<close>: \<open>None\<close> when the key is absent. The
  \<^verbatim>\<open>assert\<close> of the branch of one column is executed, as Python does by default.

  The discrete branch computes in binary64: \<^verbatim>\<open>y_pred\<close> is an array of dtype float64 in
  row-major order, and every addition, subtraction and multiplication is rounded to the
  nearest binary64 value by \<open>fl64\<close>; the negation is exact. \<^verbatim>\<open>np.cumsum\<close> and
  \<^verbatim>\<open>np.cumprod\<close> run along a row from left to right, \<open>out[t] = out[t - 1] op a[t]\<close>.
  \<^verbatim>\<open>np.sum\<close> along the rows adds to the initial \<open>0\<close> the pairwise sum of numpy: fewer than
  eight numbers are added from left to right; up to 128 numbers are added into eight
  running sums, one for each position modulo eight, over the whole blocks of eight, the
  eight are added as \<open>((r0 + r1) + (r2 + r3)) + ((r4 + r5) + (r6 + r7))\<close> and the numbers
  that are left are added to this one by one; more than 128 numbers are split at half the
  length, rounded down to a multiple of eight, and the sums of the two parts are added.

  In the branch of one column \<^verbatim>\<open>np.squeeze\<close> drops every axis of length one. A \<^verbatim>\<open>y_true\<close>
  of a single row becomes one-dimensional, so that \<^verbatim>\<open>y_true[:, 0]\<close> raises IndexError; a
  \<^verbatim>\<open>y_pred\<close> of a single row becomes a scalar, which the length check of the core
  refuses with TypeError.
\<close>

datatype ndarray = Arr1 "rat list" | Arr2 nat "rat list list"

definition fadd :: "rat \<Rightarrow> rat \<Rightarrow> rat" where
  "fadd x y = fl64 (x + y)"

definition fmul :: "rat \<Rightarrow> rat \<Rightarrow> rat" where
  "fmul x y = fl64 (x * y)"

fun cumsum_from :: "rat \<Rightarrow> rat list \<Rightarrow> rat list" where
  "cumsum_from s [] = []"
| "cumsum_from s (x # xs) = fadd s x # cumsum_from (fadd s x) xs"

fun cumsum :: "rat list \<Rightarrow> rat list" where
  \<comment> \<open>\<^verbatim>\<open>np.cumsum\<close> on one row\<close>
  "cumsum [] = []"
| "cumsum (x # xs) = x # cumsum_from x xs"

fun cumprod_from :: "rat \<Rightarrow> rat list \<Rightarrow> rat list" where
  "cumprod_from p [] = []"
| "cumprod_from p (x # xs) = fmul p x # cumprod_from (fmul p x) xs"

fun cumprod :: "rat list \<Rightarrow> rat list" where
  \<comment> \<open>\<^verbatim>\<open>np.cumprod\<close> on one row\<close>
  "cumprod [] = []"
| "cumprod (x # xs) = x # cumprod_from x xs"

function add_blocks :: "rat list \<Rightarrow> rat list \<Rightarrow> rat list \<times> rat list" where
  \<comment> \<open>the eight running sums \<open>r\<close> over the whole blocks of eight of \<open>xs\<close>, and what is left\<close>
  "add_blocks r xs =
     (if 8 \<le> length xs then add_blocks (map2 fadd r (take 8 xs)) (drop 8 xs) else (r, xs))"
  by pat_completeness auto
termination
  by (relation "measure (\<lambda>(r, xs). length xs)") auto

declare add_blocks.simps [simp del]

definition sum_block :: "rat list \<Rightarrow> rat" where
  \<comment> \<open>the pairwise sum of 8 to 128 numbers\<close>
  "sum_block a =
     (case add_blocks (take 8 a) (drop 8 a) of
        (r, rest) \<Rightarrow>
          foldl fadd
            (fadd (fadd (fadd (r ! 0) (r ! 1)) (fadd (r ! 2) (r ! 3)))
                  (fadd (fadd (r ! 4) (r ! 5)) (fadd (r ! 6) (r ! 7))))
            rest)"

function pairwise_sum :: "rat list \<Rightarrow> rat" where
  "pairwise_sum a =
     (if length a < 8 then foldl fadd 0 a
      else if length a \<le> 128 then sum_block a
      else fadd (pairwise_sum (take (length a div 2 - length a div 2 mod 8) a))
                (pairwise_sum (drop (length a div 2 - length a div 2 mod 8) a)))"
  by pat_completeness auto
termination
  by (relation "measure length") auto

declare pairwise_sum.simps [simp del]

definition np_sum :: "rat list \<Rightarrow> rat" where
  \<comment> \<open>\<^verbatim>\<open>np.sum\<close> on one row\<close>
  "np_sum a = fadd 0 (pairwise_sum a)"

fun concordance_index ::
  "(rat \<times> rat) list \<Rightarrow> ndarray \<Rightarrow> string option \<Rightarrow> nat list \<Rightarrow> error + fval" where
  "concordance_index y_true (Arr1 xs) type_pred order =
     Inl (IndexError ''tuple index out of range'')"
| "concordance_index y_true (Arr2 T rows) type_pred order =
     (if T = 1 then
        (if type_pred \<noteq> None \<and> type_pred \<noteq> Some ''hazard_ratio''
         then Inl (AssertionError None)
         else if length y_true = 1
         then Inl (IndexError ''too many indices for array'')
         else if length rows = 1
         then Inl (TypeError ''Singleton array cannot be considered a valid collection.'')
         else
           (let y_pred' = map hd rows;
                t = map fst y_true;
                e = map (\<lambda>r. snd r \<noteq> 0) y_true
            in map_sum id fst
                 (concordance_index_censored e t (map uminus y_pred') tied_tol_1e_08 order)))
      else
        (let y_t = map fst y_true;
             y_e = map (\<lambda>r. snd r \<noteq> 0) y_true;
             survival =
               (if type_pred = Some ''incidence''
                then map (\<lambda>row. map (fsub 1) (cumsum row)) rows
                else map (\<lambda>row. cumprod (map (fsub 1) row)) rows);
             risk = map np_sum survival
         in map_sum id fst
              (concordance_index_censored y_e y_t (map uminus risk) tied_tol_1e_08 order)))"

subsection \<open>What the statements below speak of\<close>

definition is_argsort :: "rat list \<Rightarrow> nat list \<Rightarrow> bool" where
  \<comment> \<open>\<open>order\<close> is a permutation of the indices that sorts the times in ascending order\<close>
  "is_argsort event_time order =
     (mset order = mset [0..<length event_time] \<and> sorted (take_idx event_time order))"

definition time_at :: "rat list \<Rightarrow> nat list \<Rightarrow> nat \<Rightarrow> rat" where
  "time_at event_time order k = event_time ! (order ! k)"

definition event_at :: "bool list \<Rightarrow> nat list \<Rightarrow> nat \<Rightarrow> bool" where
  "event_at event_indicator order k = event_indicator ! (order ! k)"

definition expected_mask :: "bool list \<Rightarrow> rat list \<Rightarrow> nat list \<Rightarrow> nat \<Rightarrow> bool list" where
  \<comment> \<open>true at the later times and at the censored samples of the same time\<close>
  "expected_mask event_indicator event_time order j =
     map (\<lambda>k. time_at event_time order j < time_at event_time order k \<or>
               (time_at event_time order k = time_at event_time order j \<and>
                \<not> event_at event_indicator order k))
       [0..<length event_time]"

definition last_alone :: "rat list \<Rightarrow> nat list \<Rightarrow> bool" where
  \<comment> \<open>the last sample in sort order shares its time with no other sample\<close>
  "last_alone event_time order =
     (2 \<le> length event_time \<and>
      time_at event_time order (length event_time - 2) \<noteq>
      time_at event_time order (length event_time - 1))"

definition n_scanned :: "rat list \<Rightarrow> nat list \<Rightarrow> nat" where
  \<comment> \<open>the sort positions that the outer loop of \<^verbatim>\<open>_get_comparable\<close> visits\<close>
  "n_scanned event_time order =
     (if length event_time < 2 then 0
      else if last_alone event_time order then length event_time - 1
      else length event_time)"

definition count_pairs :: "nat \<Rightarrow> (nat \<Rightarrow> nat \<Rightarrow> bool) \<Rightarrow> int" where
  \<comment> \<open>the number of ordered pairs \<open>(a, b)\<close> of samples with \<open>P a b\<close>\<close>
  "count_pairs n P =
     int (length (filter (\<lambda>(a, b). P a b) (List.product [0..<n] [0..<n])))"

definition tied_time_pairs :: "bool list \<Rightarrow> rat list \<Rightarrow> int" where
  \<comment> \<open>pairs of an event and a censored sample at the identical time\<close>
  "tied_time_pairs event_indicator event_time =
     count_pairs (length event_time)
       (\<lambda>a b. event_indicator ! a \<and> \<not> event_indicator ! b \<and> event_time ! b = event_time ! a)"

definition later_pairs :: "bool list \<Rightarrow> rat list \<Rightarrow> int" where
  \<comment> \<open>pairs of an event and a sample observed at a strictly later time\<close>
  "later_pairs event_indicator event_time =
     count_pairs (length event_time)
       (\<lambda>a b. event_indicator ! a \<and> event_time ! a < event_time ! b)"

definition tied_count :: "bool list \<Rightarrow> rat list \<Rightarrow> nat list \<Rightarrow> nat \<Rightarrow> int" where
  \<comment> \<open>the censored samples at the time of sort position \<open>j\<close>\<close>
  "tied_count event_indicator event_time order j =
     count_true (map (\<lambda>k. time_at event_time order k = time_at event_time order j \<and>
                          \<not> event_at event_indicator order k) [0..<length event_time])"


definition acc_step :: "rat list \<Rightarrow> rat list \<Rightarrow> rat \<Rightarrow> nat list \<Rightarrow> nat \<Rightarrow> bool list \<Rightarrow> acc \<Rightarrow> acc" where
  \<comment> \<open>the body of the accumulation loop once its checks have passed\<close>
  "acc_step estimate weights tied_tol order ind msk a =
     (let est_i = estimate ! (order ! ind);
          w_i = weights ! (order ! ind);
          est = take_idx estimate (bool_index order msk);
          ties = map (is_tie tied_tol est_i) est;
          n_ties = count_true ties;
          con = map (\<lambda>x. x < est_i) est;
          n_con = count_true (bool_index con (map Not ties))
      in a\<lparr>numerator := numerator a + (w_i * of_int n_con + (1 / 2) * w_i * of_int n_ties),
           denominator := denominator a + w_i * of_int (count_true msk),
           tied_risk := tied_risk a + n_ties,
           concordant := concordant a + n_con,
           discordant := discordant a + (int (length est) - n_con - n_ties)\<rparr>)"



definition entry_ok ::
  "bool list \<Rightarrow> rat list \<Rightarrow> rat list \<Rightarrow> nat list \<Rightarrow> nat \<Rightarrow> bool list \<Rightarrow> bool" where
  \<comment> \<open>the reads of one pass of the accumulation loop are all in range\<close>
  "entry_ok event_indicator estimate weights order ind msk =
     (ind < length order \<and> order ! ind < length estimate \<and>
      order ! ind < length event_indicator \<and> order ! ind < length weights \<and>
      length msk = length order \<and>
      list_all (\<lambda>k. k < length estimate) (bool_index order msk))"

definition later_count :: "rat list \<Rightarrow> nat list \<Rightarrow> nat \<Rightarrow> int" where
  \<comment> \<open>the samples at a time later than that of sort position \<open>j\<close>\<close>
  "later_count event_time order j =
     count_true (map (\<lambda>k. time_at event_time order j < time_at event_time order k)
       [0..<length event_time])"

definition in_unit_interval :: "fval \<Rightarrow> bool" where
  "in_unit_interval c = (case c of Fin x \<Rightarrow> 0 \<le> x \<and> x \<le> 1 | _ \<Rightarrow> False)"

definition no_ties :: "rat \<Rightarrow> rat list \<Rightarrow> bool" where
  \<comment> \<open>no two samples have estimates that the tie test takes for tied\<close>
  "no_ties tied_tol estimate =
     (\<forall>a\<in>set [0..<length estimate]. \<forall>b\<in>set [0..<length estimate].
        a = b \<or> \<not> is_tie tied_tol (estimate ! a) (estimate ! b))"

definition mirrored :: "acc \<Rightarrow> acc \<Rightarrow> bool" where
  \<comment> \<open>how the counters of the run on the negated estimates relate to those of the run\<close>
  "mirrored a b =
     (concordant b = discordant a \<and> discordant b = concordant a \<and>
      tied_risk a = 0 \<and> tied_risk b = 0 \<and>
      denominator b = denominator a \<and> numerator b = denominator a - numerator a)"

section \<open>Properties of the comparable-pair finder\<close>

subsection \<open>The sort order and the inner loop\<close>

lemma update_new: "k \<notin> fst ` set al \<Longrightarrow> AList.update k v al = al @ [(k, v)]"
  by (induction al) auto

lemma argsort_length: "is_argsort tm order \<Longrightarrow> length order = length tm"
  unfolding is_argsort_def using mset_eq_length by fastforce

lemma argsort_set: "is_argsort tm order \<Longrightarrow> set order = {0..<length tm}"
  unfolding is_argsort_def using mset_eq_setD by fastforce

lemma argsort_distinct: "is_argsort tm order \<Longrightarrow> distinct order"
  unfolding is_argsort_def using mset_eq_imp_distinct_iff distinct_upt by blast

lemma argsort_nth_less: "is_argsort tm order \<Longrightarrow> k < length tm \<Longrightarrow> order ! k < length tm"
proof -
  assume a: "is_argsort tm order" and k: "k < length tm"
  then have "order ! k \<in> set order" by (simp add: argsort_length)
  then show ?thesis by (simp add: argsort_set [OF a])
qed

lemma argsort_mono:
  assumes "is_argsort tm order" "j \<le> k" "k < length tm"
  shows "time_at tm order j \<le> time_at tm order k"
proof -
  have s: "sorted (map (\<lambda>k. tm ! k) order)"
    using assms(1) by (simp add: is_argsort_def take_idx_def)
  have l: "length order = length tm" using assms(1) by (rule argsort_length)
  from s assms(2,3) l have "map (\<lambda>k. tm ! k) order ! j \<le> map (\<lambda>k. tm ! k) order ! k"
    by (intro sorted_nth_mono) simp_all
  with assms(2,3) l show ?thesis by (simp add: time_at_def)
qed


lemma find_end_step:
  "s < length tm \<Longrightarrow> tm ! (order ! s) = t \<Longrightarrow> find_end tm order t s = find_end tm order t (s + 1)"
  by (subst find_end.simps) simp

lemma find_end_halt:
  "\<not> (s < length tm \<and> tm ! (order ! s) = t) \<Longrightarrow> find_end tm order t s = s"
  by (subst find_end.simps) (rule if_not_P)

lemma find_end_le: "s \<le> length tm \<Longrightarrow> find_end tm order t s \<le> length tm"
proof (induction tm order t s rule: find_end.induct)
  case (1 tm order t s)
  show ?case
  proof (cases "s < length tm \<and> tm ! (order ! s) = t")
    case True
    then have "s + 1 \<le> length tm" by simp
    then have "find_end tm order t (s + 1) \<le> length tm" by (rule "1.IH" [OF True])
    with True show ?thesis by (simp add: find_end_step)
  next
    case False
    with "1.prems" show ?thesis by (simp add: find_end_halt)
  qed
qed

lemma find_end_same:
  "s \<le> k \<Longrightarrow> k < find_end tm order t s \<Longrightarrow> tm ! (order ! k) = t"
proof (induction tm order t s rule: find_end.induct)
  case (1 tm order t s)
  show ?case
  proof (cases "s < length tm \<and> tm ! (order ! s) = t")
    case True
    then have eq: "find_end tm order t s = find_end tm order t (s + 1)"
      by (simp add: find_end_step)
    show ?thesis
    proof (cases "k = s")
      case True
      with \<open>s < length tm \<and> tm ! (order ! s) = t\<close> show ?thesis by simp
    next
      case False
      with "1.prems" eq have "s + 1 \<le> k" and "k < find_end tm order t (s + 1)" by simp_all
      then show ?thesis by (rule "1.IH" [OF True])
    qed
  next
    case False
    then have "find_end tm order t s = s" by (rule find_end_halt)
    with "1.prems" show ?thesis by simp
  qed
qed

lemma find_end_stop:
  "find_end tm order t s < length tm \<Longrightarrow> tm ! (order ! (find_end tm order t s)) \<noteq> t"
proof (induction tm order t s rule: find_end.induct)
  case (1 tm order t s)
  show ?case
  proof (cases "s < length tm \<and> tm ! (order ! s) = t")
    case True
    then have eq: "find_end tm order t s = find_end tm order t (s + 1)"
      by (simp add: find_end_step)
    from "1.prems" eq have "find_end tm order t (s + 1) < length tm" by simp
    then have "tm ! (order ! find_end tm order t (s + 1)) \<noteq> t" by (rule "1.IH" [OF True])
    then show ?thesis unfolding eq .
  next
    case False
    then have e: "find_end tm order t s = s" by (rule find_end_halt)
    from "1.prems" have "s < length tm" unfolding e .
    with False have "tm ! (order ! s) \<noteq> t" by simp
    then show ?thesis unfolding e .
  qed
qed


lemma group_bounds:
  assumes "i + 1 < length tm"
  shows "i < find_end tm order t (i + 1)" and "find_end tm order t (i + 1) \<le> length tm"
  using find_end_ge [of "i + 1" tm order t] find_end_le [of "i + 1" tm order t] assms
  by simp_all

lemma group_same:
  assumes "i \<le> k" "k < find_end tm order (time_at tm order i) (i + 1)"
  shows "time_at tm order k = time_at tm order i"
proof (cases "k = i")
  case True
  then show ?thesis by simp
next
  case False
  with assms(1) have "i + 1 \<le> k" by simp
  then have "tm ! (order ! k) = time_at tm order i" using assms(2) by (rule find_end_same)
  then show ?thesis by (simp add: time_at_def)
qed

lemma group_later:
  assumes a: "is_argsort tm order"
    and "find_end tm order (time_at tm order i) (i + 1) \<le> k" "k < length tm"
  shows "time_at tm order i < time_at tm order k"
proof -
  let ?en = "find_end tm order (time_at tm order i) (i + 1)"
  from assms(2,3) have lt: "?en < length tm" by simp
  then have "tm ! (order ! ?en) \<noteq> time_at tm order i" by (rule find_end_stop)
  then have ne: "time_at tm order ?en \<noteq> time_at tm order i" by (simp add: time_at_def)
  have "i \<le> ?en" using find_end_ge [of "i + 1" tm order "time_at tm order i"] by simp
  then have "time_at tm order i \<le> time_at tm order ?en" using lt by (intro argsort_mono [OF a])
  with ne have "time_at tm order i < time_at tm order ?en" by simp
  also have "\<dots> \<le> time_at tm order k" using assms(2,3) by (intro argsort_mono [OF a])
  finally show ?thesis .
qed

lemma slice_order: "en \<le> length order \<Longrightarrow> slice order i en = map (\<lambda>k. order ! k) [i..<en]"
  by (rule nth_equalityI) (auto simp: slice_def)

lemma censored_eq:
  "en \<le> length order \<Longrightarrow>
   map Not (take_idx ev (slice order i en)) = map (\<lambda>k. \<not> event_at ev order k) [i..<en]"
  by (simp add: slice_order take_idx_def event_at_def)

lemma group_mask_eq:
  "i \<le> en \<Longrightarrow> en \<le> n \<Longrightarrow>
   group_mask n i en c = replicate i False @ c @ replicate (n - en) True"
  by (simp add: group_mask_def assign_slice_def assign_from_def min_def)

lemma group_mask_expected:
  assumes a: "is_argsort tm order" and i: "i + 1 < length tm"
    and sep: "\<forall>k<i. time_at tm order k < time_at tm order i"
    and en: "en = find_end tm order (time_at tm order i) (i + 1)"
    and j: "i \<le> j" "j < en"
  shows "group_mask (length tm) i en (map (\<lambda>k. \<not> event_at ev order k) [i..<en])
         = expected_mask ev tm order j"
proof (rule nth_equalityI)
  from group_bounds [OF i, of order "time_at tm order i"] en
  have b: "i < en" "en \<le> length tm" by simp_all
  have tj: "time_at tm order j = time_at tm order i"
    using j unfolding en by (rule group_same)
  let ?c = "map (\<lambda>k. \<not> event_at ev order k) [i..<en]"
  have gm: "group_mask (length tm) i en ?c = replicate i False @ ?c @ replicate (length tm - en) True"
    using b by (intro group_mask_eq) simp_all
  show len: "length (group_mask (length tm) i en ?c) = length (expected_mask ev tm order j)"
    using b by (simp add: gm expected_mask_def)
  fix k
  assume "k < length (group_mask (length tm) i en ?c)"
  with len have k: "k < length tm" by (simp add: expected_mask_def)
  consider "k < i" | "i \<le> k" "k < en" | "en \<le> k" by linarith
  then show "group_mask (length tm) i en ?c ! k = expected_mask ev tm order j ! k"
  proof cases
    case 1
    with sep have "time_at tm order k < time_at tm order i" by simp
    with 1 k tj show ?thesis by (simp add: gm expected_mask_def nth_append)
  next
    case 2
    then have "time_at tm order k = time_at tm order i" unfolding en by (rule group_same)
    moreover from 2 have "k - i < en - i" and "\<not> k < i" and "i + (k - i) = k" by simp_all
    ultimately show ?thesis using k tj b by (simp add: gm expected_mask_def nth_append)
  next
    case 3
    then have "time_at tm order i < time_at tm order k"
      using k unfolding en by (intro group_later [OF a])
    moreover from 3 b have "\<not> k - i < en - i" and "\<not> k < i" and "k - i - (en - i) < length tm - en"
      using k by simp_all
    ultimately show ?thesis using k tj b by (simp add: gm expected_mask_def nth_append)
  qed
qed


lemma count_true_map: "count_true (map f xs) = int (length (filter f xs))"
  by (simp add: count_true_def filter_map comp_def)

lemma filter_upt_split:
  "i \<le> en \<Longrightarrow> en \<le> n \<Longrightarrow>
   filter P [0..<n] = filter P [0..<i] @ filter P [i..<en] @ filter P [en..<n]"
proof -
  assume "i \<le> en" "en \<le> n"
  then have "[0..<n] = [0..<en] @ [en..<n]" and "[0..<en] = [0..<i] @ [i..<en]"
    using upt_add_eq_append [of 0 en "n - en"] upt_add_eq_append [of 0 i "en - i"] by simp_all
  then have "[0..<n] = [0..<i] @ [i..<en] @ [en..<n]" by simp
  then show ?thesis by (metis filter_append)
qed

lemma group_tied_count:
  assumes a: "is_argsort tm order" and i: "i + 1 < length tm"
    and sep: "\<forall>k<i. time_at tm order k < time_at tm order i"
    and en: "en = find_end tm order (time_at tm order i) (i + 1)"
    and j: "i \<le> j" "j < en"
  shows "count_true (map (\<lambda>k. \<not> event_at ev order k) [i..<en]) = tied_count ev tm order j"
proof -
  from group_bounds [OF i, of order "time_at tm order i"] en
  have b: "i \<le> en" "en \<le> length tm" by simp_all
  have tj: "time_at tm order j = time_at tm order i"
    using j unfolding en by (rule group_same)
  let ?P = "\<lambda>k. time_at tm order k = time_at tm order j \<and> \<not> event_at ev order k"
  have 1: "filter ?P [0..<i] = []" using sep tj by (auto simp: filter_empty_conv)
  have 3: "filter ?P [en..<length tm] = []"
  proof -
    have "\<not> ?P k" if "k \<in> set [en..<length tm]" for k
    proof -
      from that have "en \<le> k" "k < length tm" by simp_all
      then have "time_at tm order i < time_at tm order k"
        unfolding en by (intro group_later [OF a])
      with tj show ?thesis by simp
    qed
    then show ?thesis by (auto simp: filter_empty_conv)
  qed
  have 2: "filter ?P [i..<en] = filter (\<lambda>k. \<not> event_at ev order k) [i..<en]"
  proof (rule filter_cong [OF refl])
    fix k assume "k \<in> set [i..<en]"
    then have "i \<le> k" "k < en" by simp_all
    then have "time_at tm order k = time_at tm order i" unfolding en by (rule group_same)
    with tj show "?P k = (\<not> event_at ev order k)" by simp
  qed
  have "filter ?P [0..<length tm] = filter (\<lambda>k. \<not> event_at ev order k) [i..<en]"
    using filter_upt_split [OF b, of ?P] by (simp only: 1 2 3 append_Nil append_Nil2)
  then show ?thesis by (simp only: tied_count_def count_true_map)
qed

lemma fold_for_body:
  "distinct js \<Longrightarrow> \<forall>j\<in>set js. j \<notin> fst ` set (fst st) \<Longrightarrow>
   fold (for_body ev order n i en c) js st =
     (fst st @ map (\<lambda>j. (j, group_mask n i en c)) (filter (event_at ev order) js),
      snd st + sum_list (map (\<lambda>j. count_true c) (filter (event_at ev order) js)))"
proof (induction js arbitrary: st)
  case Nil
  then show ?case by simp
next
  case (Cons j js)
  let ?st = "for_body ev order n i en c j st"
  have new: "j \<notin> fst ` set (fst st)" using Cons.prems(2) by simp
  have st: "?st = (if event_at ev order j
                   then (fst st @ [(j, group_mask n i en c)], snd st + count_true c) else st)"
    using new by (simp add: for_body_def event_at_def update_new)
  have d: "distinct js" using Cons.prems(1) by simp
  have fresh: "\<forall>j'\<in>set js. j' \<notin> fst ` set (fst ?st)"
    using Cons.prems by (auto simp: st)
  have "fold (for_body ev order n i en c) (j # js) st = fold (for_body ev order n i en c) js ?st"
    by simp
  also have "\<dots> = (fst ?st @ map (\<lambda>j. (j, group_mask n i en c)) (filter (event_at ev order) js),
      snd ?st + sum_list (map (\<lambda>j. count_true c) (filter (event_at ev order) js)))"
    using d fresh by (rule Cons.IH)
  also have "\<dots> = (fst st @ map (\<lambda>j. (j, group_mask n i en c)) (filter (event_at ev order) (j # js)),
      snd st + sum_list (map (\<lambda>j. count_true c) (filter (event_at ev order) (j # js))))"
    by (simp add: st)
  finally show ?case .
qed


lemma gc_loop_exit:
  "\<not> int i < int (length tm) - 1 \<Longrightarrow> gc_loop ev tm order i st = st"
  by (subst gc_loop.simps) (rule if_not_P)

lemma gc_loop_step:
  "int i < int (length tm) - 1 \<Longrightarrow>
   gc_loop ev tm order i st =
     gc_loop ev tm order (find_end tm order (time_at tm order i) (i + 1))
       (fold (for_body ev order (length tm) i (find_end tm order (time_at tm order i) (i + 1))
                (map Not (take_idx ev
                   (slice order i (find_end tm order (time_at tm order i) (i + 1))))))
          [i..<find_end tm order (time_at tm order i) (i + 1)] st)"
  by (subst gc_loop.simps) (simp add: Let_def time_at_def)

lemma n_scanned_le: "n_scanned tm order \<le> length tm"
  by (simp add: n_scanned_def)

lemma gc_loop_result:
  "is_argsort tm order \<Longrightarrow> i \<le> length tm \<Longrightarrow>
   \<forall>k<i. \<forall>k'. i \<le> k' \<and> k' < length tm \<longrightarrow> time_at tm order k < time_at tm order k' \<Longrightarrow>
   \<forall>p\<in>set (fst st). fst p < i \<Longrightarrow>
   gc_loop ev tm order i st =
     (fst st @ map (\<lambda>j. (j, expected_mask ev tm order j))
                (filter (event_at ev order) [i..<n_scanned tm order]),
      snd st + sum_list (map (tied_count ev tm order)
                (filter (event_at ev order) [i..<n_scanned tm order])))"
proof (induction ev tm order i st rule: gc_loop.induct)
  case (1 ev tm order i st)
  note a = "1.prems"(1) and le = "1.prems"(2) and sep = "1.prems"(3) and keys = "1.prems"(4)
  let ?n = "length tm"
  let ?N = "n_scanned tm order"
  show ?case
  proof (cases "int i < int ?n - 1")
    case False
    have "?N \<le> i"
    proof (cases "?n < 2")
      case True
      then show ?thesis by (simp add: n_scanned_def)
    next
      case n2: False
      with False le have "i = ?n - 1 \<or> i = ?n" by linarith
      then show ?thesis
      proof
        assume i: "i = ?n - 1"
        with n2 have "?n - 2 < i" "i \<le> ?n - 1" "?n - 1 < ?n" by simp_all
        with sep have "time_at tm order (?n - 2) < time_at tm order (?n - 1)" by blast
        with n2 have "last_alone tm order" by (simp add: last_alone_def)
        with n2 i show ?thesis by (simp add: n_scanned_def)
      next
        assume "i = ?n"
        then show ?thesis by (simp add: n_scanned_le)
      qed
    qed
    then have e: "[i..<?N] = []" by simp
    show ?thesis unfolding gc_loop_exit [OF False] e by simp
  next
    case True
    define en where "en = find_end tm order (time_at tm order i) (i + 1)"
    define c where "c = map Not (take_idx ev (slice order i en))"
    define st' where "st' = fold (for_body ev order ?n i en c) [i..<en] st"
    from True have i1: "i + 1 < ?n" by linarith
    from group_bounds [OF i1, of order "time_at tm order i"]
    have b: "i < en" "en \<le> ?n" by (simp_all add: en_def)
    have lo: "length order = ?n" using a by (rule argsort_length)
    have c: "c = map (\<lambda>k. \<not> event_at ev order k) [i..<en]"
      unfolding c_def using b lo by (intro censored_eq) simp
    have sepi: "\<forall>k<i. time_at tm order k < time_at tm order i"
      using sep i1 by simp
    have step: "gc_loop ev tm order i st = gc_loop ev tm order en st'"
      using True by (simp add: gc_loop_step en_def c_def st'_def)
    have fresh: "\<forall>j\<in>set [i..<en]. j \<notin> fst ` set (fst st)"
      using keys by fastforce
    have st': "st' = (fst st @ map (\<lambda>j. (j, group_mask ?n i en c)) (filter (event_at ev order) [i..<en]),
        snd st + sum_list (map (\<lambda>j. count_true c) (filter (event_at ev order) [i..<en])))"
      unfolding st'_def using distinct_upt fresh by (rule fold_for_body)
    have m: "map (\<lambda>j. (j, group_mask ?n i en c)) (filter (event_at ev order) [i..<en])
           = map (\<lambda>j. (j, expected_mask ev tm order j)) (filter (event_at ev order) [i..<en])"
    proof (rule map_cong [OF refl])
      fix j assume "j \<in> set (filter (event_at ev order) [i..<en])"
      then have "i \<le> j" "j < en" by simp_all
      with group_mask_expected [OF a i1 sepi en_def, of j ev]
      show "(j, group_mask ?n i en c) = (j, expected_mask ev tm order j)" by (simp add: c)
    qed
    have s: "map (\<lambda>j. count_true c) (filter (event_at ev order) [i..<en])
           = map (tied_count ev tm order) (filter (event_at ev order) [i..<en])"
    proof (rule map_cong [OF refl])
      fix j assume "j \<in> set (filter (event_at ev order) [i..<en])"
      then have "i \<le> j" "j < en" by simp_all
      with group_tied_count [OF a i1 sepi en_def, of j ev]
      show "count_true c = tied_count ev tm order j" by (simp add: c)
    qed
    have enN: "en \<le> ?N"
    proof (cases "last_alone tm order")
      case False
      with i1 b show ?thesis by (simp add: n_scanned_def)
    next
      case la: True
      have "en \<noteq> ?n"
      proof
        assume e: "en = ?n"
        from i1 e have "i \<le> ?n - 2" "?n - 2 < en" "i \<le> ?n - 1" "?n - 1 < en" by simp_all
        then have "time_at tm order (?n - 2) = time_at tm order i"
          and "time_at tm order (?n - 1) = time_at tm order i"
          unfolding en_def by (simp_all add: group_same)
        with la show False by (simp add: last_alone_def)
      qed
      with b la i1 show ?thesis by (simp add: n_scanned_def)
    qed
    have sep': "\<forall>k<en. \<forall>k'. en \<le> k' \<and> k' < ?n \<longrightarrow> time_at tm order k < time_at tm order k'"
    proof (intro allI impI)
      fix k k' assume k: "k < en" and k': "en \<le> k' \<and> k' < ?n"
      show "time_at tm order k < time_at tm order k'"
      proof (cases "k < i")
        case True
        with sep k' b show ?thesis by simp
      next
        case False
        then have "i \<le> k" by simp
        then have "time_at tm order k = time_at tm order i"
          using k unfolding en_def by (rule group_same)
        moreover from k' have "time_at tm order i < time_at tm order k'"
          unfolding en_def by (intro group_later [OF a]) simp_all
        ultimately show ?thesis by simp
      qed
    qed
    have keys': "\<forall>p\<in>set (fst st'). fst p < en"
      using keys b by (auto simp: st')
    have ih: "gc_loop ev tm order en st' =
       (fst st' @ map (\<lambda>j. (j, expected_mask ev tm order j))
                (filter (event_at ev order) [en..<?N]),
        snd st' + sum_list (map (tied_count ev tm order)
                (filter (event_at ev order) [en..<?N])))"
      using "1.IH" [OF True refl refl refl refl refl a] b(2) sep' keys'
      unfolding en_def c_def st'_def time_at_def by simp
    have split: "[i..<?N] = [i..<en] @ [en..<?N]"
      using b enN upt_add_eq_append [of i en "?N - en"] by simp
    show ?thesis
      unfolding step ih split by (simp add: st' m s)
  qed
qed

lemma get_comparable_eq:
  assumes "is_argsort tm order"
  shows "get_comparable ev tm order =
     (map (\<lambda>j. (j, expected_mask ev tm order j))
        (filter (event_at ev order) [0..<n_scanned tm order]),
      sum_list (map (tied_count ev tm order)
        (filter (event_at ev order) [0..<n_scanned tm order])))"
  unfolding get_comparable_def using gc_loop_result [OF assms, of 0 "([], 0)" ev] by simp

subsection \<open>The accumulation loop\<close>

lemma check_inputs_Inr:
  "check_inputs ev tm est = Inr x \<Longrightarrow>
   x = (ev, tm, est) \<and> length ev = length tm \<and> length est = length tm \<and>
   2 \<le> length tm \<and> True \<in> set ev"
  by (auto simp: check_inputs_def split: if_splits)

lemma bool_index_subset: "set (bool_index xs m) \<subseteq> set xs"
  by (auto simp: bool_index_def dest: set_zip_leftD)

lemma arrays_entry_ok:
  assumes "length ev = length order" and "length est = length order"
    and "length w = length order" and "\<forall>k\<in>set order. k < length order"
    and "ind < length order" and "length msk = length order"
  shows "entry_ok ev est w order ind msk"
proof -
  from assms(4,5) have "order ! ind < length order" by simp
  moreover have "\<forall>k\<in>set (bool_index order msk). k < length order"
    using assms(4) bool_index_subset [of order msk] by blast
  ultimately show ?thesis using assms(1-3,5,6) by (simp add: entry_ok_def list_all_iff)
qed

lemma accumulate_loop_Cons_ok:
  "entry_ok ev est w order ind msk \<Longrightarrow> \<not> debug \<or> ev ! (order ! ind) \<Longrightarrow>
   accumulate_loop debug ev est w tol order ((ind, msk) # rest) a =
   accumulate_loop debug ev est w tol order rest (acc_step est w tol order ind msk a)"
  by (auto simp add: entry_ok_def acc_step_def Let_def)

lemma accumulate_loop_Cons_censored:
  "entry_ok ev est w order ind msk \<Longrightarrow> \<not> ev ! (order ! ind) \<Longrightarrow>
   accumulate_loop True ev est w tol order ((ind, msk) # rest) a
     = Inl (AssertionError (Some (order ! ind)))"
  by (simp add: entry_ok_def Let_def)

lemma accumulate_loop_fold:
  "\<forall>p\<in>set cs. entry_ok ev est w order (fst p) (snd p) \<and> (\<not> debug \<or> ev ! (order ! fst p))
   \<Longrightarrow> accumulate_loop debug ev est w tol order cs a
       = Inr (fold (\<lambda>p. acc_step est w tol order (fst p) (snd p)) cs a)"
proof (induction cs arbitrary: a)
  case Nil
  show ?case by simp
next
  case (Cons p cs)
  obtain ind msk where p: "p = (ind, msk)" by (cases p)
  with Cons.prems have "entry_ok ev est w order ind msk" "\<not> debug \<or> ev ! (order ! ind)"
    by simp_all
  then have "accumulate_loop debug ev est w tol order (p # cs) a =
      accumulate_loop debug ev est w tol order cs (acc_step est w tol order ind msk a)"
    unfolding p by (rule accumulate_loop_Cons_ok)
  also have "\<dots> = Inr (fold (\<lambda>p. acc_step est w tol order (fst p) (snd p)) cs
      (acc_step est w tol order ind msk a))"
    using Cons.prems by (intro Cons.IH) simp
  finally show ?case by (simp add: p)
qed

lemma accumulate_fold:
  "\<forall>p\<in>set cs. entry_ok ev est w order (fst p) (snd p) \<and> ev ! (order ! fst p)
   \<Longrightarrow> accumulate ev est w tol order cs a
       = Inr (fold (\<lambda>p. acc_step est w tol order (fst p) (snd p)) cs a)"
  unfolding accumulate_def by (rule accumulate_loop_fold) simp

lemma accumulate_total:
  "\<forall>p\<in>set cs. entry_ok ev est w order (fst p) (snd p) \<and> ev ! (order ! fst p)
   \<Longrightarrow> \<exists>a'. accumulate ev est w tol order cs a = Inr a'"
  by (simp add: accumulate_fold)

lemma accumulate_loop_censored_key:
  "\<forall>p\<in>set cs. entry_ok ev est w order (fst p) (snd p) \<Longrightarrow>
   \<exists>p\<in>set cs. \<not> ev ! (order ! fst p) \<Longrightarrow>
   \<exists>k. accumulate_loop True ev est w tol order cs a = Inl (AssertionError (Some k)) \<and> \<not> ev ! k"
proof (induction cs arbitrary: a)
  case Nil
  then show ?case by simp
next
  case (Cons p cs)
  obtain ind msk where p: "p = (ind, msk)" by (cases p)
  with Cons.prems(1) have wf: "entry_ok ev est w order ind msk" by simp
  show ?case
  proof (cases "ev ! (order ! ind)")
    case False
    with wf have "accumulate_loop True ev est w tol order (p # cs) a
        = Inl (AssertionError (Some (order ! ind)))"
      unfolding p by (intro accumulate_loop_Cons_censored)
    with False show ?thesis by blast
  next
    case True
    with wf have "accumulate_loop True ev est w tol order (p # cs) a =
        accumulate_loop True ev est w tol order cs (acc_step est w tol order ind msk a)"
      unfolding p by (intro accumulate_loop_Cons_ok) simp_all
    moreover from True Cons.prems(2) p have "\<exists>p\<in>set cs. \<not> ev ! (order ! fst p)" by auto
    with Cons.prems(1)
    have "\<exists>k. accumulate_loop True ev est w tol order cs (acc_step est w tol order ind msk a)
              = Inl (AssertionError (Some k)) \<and> \<not> ev ! k"
      by (intro Cons.IH) simp_all
    ultimately show ?thesis by simp
  qed
qed

lemma accumulate_censored_key:
  "\<forall>p\<in>set cs. entry_ok ev est w order (fst p) (snd p) \<Longrightarrow>
   \<exists>p\<in>set cs. \<not> ev ! (order ! fst p) \<Longrightarrow>
   \<exists>k. accumulate ev est w tol order cs a = Inl (AssertionError (Some k)) \<and> \<not> ev ! k"
  unfolding accumulate_def by (rule accumulate_loop_censored_key)

lemma accumulate_loop_never_asserts:
  "\<forall>p\<in>set cs. ev ! (order ! fst p) \<Longrightarrow>
   accumulate_loop debug ev est w tol order cs a \<noteq> Inl (AssertionError k)"
proof (induction cs arbitrary: a)
  case Nil
  show ?case by simp
next
  case (Cons p cs)
  obtain ind msk where p: "p = (ind, msk)" by (cases p)
  from Cons.prems have e: "ev ! (order ! ind)" and rest: "\<forall>p\<in>set cs. ev ! (order ! fst p)"
    by (simp_all add: p)
  have "accumulate_loop debug ev est w tol order cs a' \<noteq> Inl (AssertionError k)" for a'
    using rest by (rule Cons.IH)
  with e show ?case unfolding p by (simp add: Let_def)
qed

lemma expected_mask_length: "length (expected_mask ev tm order j) = length tm"
  by (simp add: expected_mask_def)

lemma get_comparable_entries:
  assumes a: "is_argsort tm order" and p: "p \<in> set (fst (get_comparable ev tm order))"
  shows "fst p < n_scanned tm order" and "event_at ev order (fst p)"
    and "snd p = expected_mask ev tm order (fst p)"
  using p unfolding get_comparable_eq [OF a] by auto

lemma get_comparable_wf:
  assumes a: "is_argsort tm order" and p: "p \<in> set (fst (get_comparable ev tm order))"
  shows "fst p < length order \<and> length (snd p) = length order \<and> ev ! (order ! fst p)"
  using get_comparable_entries [OF a p] n_scanned_le [of tm order] argsort_length [OF a]
  by (simp add: expected_mask_length event_at_def)

lemma get_comparable_entry_ok:
  assumes v: "check_inputs ev tm est = Inr (ev, tm, est)" and a: "is_argsort tm order"
    and w: "length w = length tm" and p: "p \<in> set (fst (get_comparable ev tm order))"
  shows "entry_ok ev est w order (fst p) (snd p) \<and> ev ! (order ! fst p)"
proof -
  from v have l: "length ev = length tm" "length est = length tm"
    by (auto dest: check_inputs_Inr)
  have "\<forall>k\<in>set order. k < length order"
    by (simp add: argsort_set [OF a] argsort_length [OF a])
  then have "entry_ok ev est w order (fst p) (snd p)"
    using get_comparable_wf [OF a p] l w argsort_length [OF a]
    by (intro arrays_entry_ok) simp_all
  with get_comparable_wf [OF a p] show ?thesis by simp
qed

lemma n_scanned_iff:
  "2 \<le> length tm \<Longrightarrow> j < length tm \<Longrightarrow>
   j < n_scanned tm order \<longleftrightarrow> \<not> (j = length tm - 1 \<and> last_alone tm order)"
  by (auto simp: n_scanned_def)

lemma get_comparable_map_of:
  assumes "is_argsort tm order"
  shows "map_of (fst (get_comparable ev tm order)) j =
     (if event_at ev order j \<and> j < n_scanned tm order
      then Some (expected_mask ev tm order j) else None)"
  unfolding get_comparable_eq [OF assms] by (simp add: map_of_map_restrict restrict_map_def)

lemma estimate_concordance_index_eq:
  "estimate_concordance_index ev tm est w tol order =
     (if fst (get_comparable ev tm order) = []
      then Inl (NoComparablePairException
             ''Data has no comparable pairs, cannot estimate concordance index.'')
      else
        (case accumulate ev est w tol order (fst (get_comparable ev tm order)) acc0 of
           Inl e \<Rightarrow> Inl e
         | Inr a \<Rightarrow>
             Inr (fdiv (numerator a) (denominator a), concordant a, discordant a, tied_risk a,
                  snd (get_comparable ev tm order))))"
  by (cases "get_comparable ev tm order")
    (simp add: estimate_concordance_index_def split: sum.splits)

lemma concordance_index_censored_valid:
  "check_inputs ev tm est = Inr (ev, tm, est) \<Longrightarrow>
   concordance_index_censored ev tm est tol order =
   estimate_concordance_index ev tm est (replicate (length est) 1) tol order"
  by (simp add: concordance_index_censored_def)

lemma accumulate_comparable_total:
  assumes "check_inputs ev tm est = Inr (ev, tm, est)" and "is_argsort tm order"
    and "length w = length tm"
  shows "\<exists>a'. accumulate ev est w tol order (fst (get_comparable ev tm order)) a = Inr a'"
  using get_comparable_entry_ok [OF assms] by (intro accumulate_total) blast

subsection \<open>Counting over sort positions and over samples\<close>

lemma perm_sum_list:
  fixes f :: "'a \<Rightarrow> int"
  shows "mset xs = mset ys \<Longrightarrow> sum_list (map f xs) = sum_list (map f ys)"
proof -
  assume "mset xs = mset ys"
  then have "image_mset f (mset xs) = image_mset f (mset ys)" by simp
  then have "mset (map f xs) = mset (map f ys)" by simp
  then have "sum_mset (mset (map f xs)) = sum_mset (mset (map f ys))" by (rule arg_cong)
  then show ?thesis by (simp only: sum_mset_sum_list)
qed

lemma perm_filter_length:
  "mset xs = mset ys \<Longrightarrow> length (filter P xs) = length (filter P ys)"
proof -
  assume "mset xs = mset ys"
  then have "filter_mset P (mset xs) = filter_mset P (mset ys)" by simp
  then have "mset (filter P xs) = mset (filter P ys)" by simp
  then show ?thesis by (rule mset_eq_length)
qed

lemma positions_order:
  "is_argsort tm order \<Longrightarrow> map (\<lambda>k. order ! k) [0..<length tm] = order"
  using argsort_length [of tm order] map_nth [of order] by simp

lemma count_positions:
  assumes "is_argsort tm order"
  shows "length (filter (\<lambda>k. Q (order ! k)) [0..<length tm]) = length (filter Q [0..<length tm])"
proof -
  have "length (filter (\<lambda>k. Q (order ! k)) [0..<length tm])
      = length (filter Q (map (\<lambda>k. order ! k) [0..<length tm]))"
    by (simp add: filter_map comp_def)
  also have "\<dots> = length (filter Q order)" by (simp only: positions_order [OF assms])
  also have "\<dots> = length (filter Q [0..<length tm])"
    using assms by (intro perm_filter_length) (simp add: is_argsort_def)
  finally show ?thesis .
qed

lemma sum_positions:
  fixes G :: "nat \<Rightarrow> int"
  assumes "is_argsort tm order"
  shows "sum_list (map (\<lambda>j. G (order ! j)) [0..<length tm]) = sum_list (map G [0..<length tm])"
proof -
  have "map (\<lambda>j. G (order ! j)) [0..<length tm] = map G (map (\<lambda>k. order ! k) [0..<length tm])"
    by simp
  also have "\<dots> = map G order" by (simp only: positions_order [OF assms])
  finally have "sum_list (map (\<lambda>j. G (order ! j)) [0..<length tm]) = sum_list (map G order)"
    by simp
  also have "\<dots> = sum_list (map G [0..<length tm])"
    using assms by (intro perm_sum_list) (simp add: is_argsort_def)
  finally show ?thesis .
qed

lemma length_filter_product:
  "int (length (filter (\<lambda>(a, b). P a b) (List.product xs ys)))
   = sum_list (map (\<lambda>a. int (length (filter (P a) ys))) xs)"
  by (induction xs) (simp_all add: filter_map comp_def)

lemma sum_list_filter_if:
  fixes f :: "nat \<Rightarrow> int"
  shows "sum_list (map f (filter E xs)) = sum_list (map (\<lambda>j. if E j then f j else 0) xs)"
  by (induction xs) simp_all

lemma pairs_over_positions:
  assumes a: "is_argsort tm order"
  shows "sum_list (map (\<lambda>j. count_true (map (\<lambda>k. R (order ! j) (order ! k)) [0..<length tm]))
            (filter (event_at ev order) [0..<length tm]))
       = count_pairs (length tm) (\<lambda>a b. ev ! a \<and> R a b)"
proof -
  let ?n = "length tm"
  let ?G = "\<lambda>a. if ev ! a then int (length (filter (R a) [0..<?n])) else 0"
  have "sum_list (map (\<lambda>j. count_true (map (\<lambda>k. R (order ! j) (order ! k)) [0..<?n]))
            (filter (event_at ev order) [0..<?n]))
      = sum_list (map (\<lambda>j. if event_at ev order j
            then count_true (map (\<lambda>k. R (order ! j) (order ! k)) [0..<?n]) else 0) [0..<?n])"
    by (rule sum_list_filter_if)
  also have "\<dots> = sum_list (map (\<lambda>j. ?G (order ! j)) [0..<?n])"
  proof -
    have "count_true (map (\<lambda>k. R x (order ! k)) [0..<?n]) = int (length (filter (R x) [0..<?n]))"
      for x
      by (simp only: count_true_map count_positions [OF a])
    then show ?thesis by (simp add: event_at_def cong: if_cong)
  qed
  also have "\<dots> = sum_list (map ?G [0..<?n])" by (rule sum_positions [OF a])
  also have "\<dots> = sum_list (map (\<lambda>a. int (length (filter (\<lambda>b. ev ! a \<and> R a b) [0..<?n]))) [0..<?n])"
    by (intro arg_cong [where f = sum_list] map_cong refl) simp
  also have "\<dots> = count_pairs ?n (\<lambda>a b. ev ! a \<and> R a b)"
    by (simp add: count_pairs_def length_filter_product)
  finally show ?thesis .
qed

lemma count_true_zero: "\<forall>x\<in>set xs. \<not> P x \<Longrightarrow> count_true (map P xs) = 0"
  by (simp add: count_true_map filter_empty_conv)

lemma unscanned_counts:
  assumes a: "is_argsort tm order" and n: "2 \<le> length tm"
    and j: "j < length tm" "\<not> j < n_scanned tm order" and e: "event_at ev order j"
  shows "tied_count ev tm order j = 0" and "later_count tm order j = 0"
proof -
  let ?n = "length tm"
  from n_scanned_iff [OF n j(1), of order] j(2)
  have jl: "j = ?n - 1" and la: "last_alone tm order" by simp_all
  have lt: "time_at tm order k < time_at tm order j" if "k < ?n - 1" for k
  proof -
    from that n have "k \<le> ?n - 2" "?n - 2 < ?n" by simp_all
    then have "time_at tm order k \<le> time_at tm order (?n - 2)" by (intro argsort_mono [OF a])
    moreover have "time_at tm order (?n - 2) \<le> time_at tm order (?n - 1)"
      using n by (intro argsort_mono [OF a]) simp_all
    ultimately show ?thesis using la jl by (simp add: last_alone_def)
  qed
  have "\<not> (time_at tm order k = time_at tm order j \<and> \<not> event_at ev order k)"
    if "k \<in> set [0..<?n]" for k
  proof (cases "k = j")
    case True
    with e show ?thesis by simp
  next
    case False
    with that jl have "k < ?n - 1" by simp
    then show ?thesis using lt by fastforce
  qed
  then show "tied_count ev tm order j = 0"
    unfolding tied_count_def by (intro count_true_zero) blast
  have "\<not> time_at tm order j < time_at tm order k" if "k \<in> set [0..<?n]" for k
  proof -
    from that jl have "k \<le> j" by simp
    then have "time_at tm order k \<le> time_at tm order j" using j(1) by (intro argsort_mono [OF a])
    then show ?thesis by simp
  qed
  then show "later_count tm order j = 0"
    unfolding later_count_def by (intro count_true_zero) blast
qed

lemma sum_scanned:
  fixes f :: "nat \<Rightarrow> int"
  assumes n: "2 \<le> length tm"
    and z: "\<And>j. j < length tm \<Longrightarrow> \<not> j < n_scanned tm order \<Longrightarrow> E j \<Longrightarrow> f j = 0"
  shows "sum_list (map f (filter E [0..<n_scanned tm order]))
       = sum_list (map f (filter E [0..<length tm]))"
proof (cases "last_alone tm order")
  case False
  with n show ?thesis by (simp add: n_scanned_def)
next
  case True
  with n have N: "n_scanned tm order = length tm - 1" by (simp add: n_scanned_def)
  from n have "Suc (length tm - 1) = length tm" by simp
  then have s: "[0..<length tm] = [0..<length tm - 1] @ [length tm - 1]"
    by (metis le0 upt_Suc_append)
  have z': "E (length tm - 1) \<Longrightarrow> f (length tm - 1) = 0"
    using z [of "length tm - 1"] n N by simp
  have "sum_list (map f (filter E [0..<length tm]))
      = sum_list (map f (filter E ([0..<length tm - 1] @ [length tm - 1])))"
    by (subst s) (rule refl)
  also have "\<dots> = sum_list (map f (filter E [0..<length tm - 1]))"
    using z' by simp
  finally show ?thesis unfolding N by (rule sym)
qed

lemma tied_time_total:
  assumes a: "is_argsort tm order" and n: "2 \<le> length tm"
  shows "snd (get_comparable ev tm order) = tied_time_pairs ev tm"
proof -
  have "snd (get_comparable ev tm order)
      = sum_list (map (tied_count ev tm order)
          (filter (event_at ev order) [0..<n_scanned tm order]))"
    by (simp add: get_comparable_eq [OF a])
  also have "\<dots> = sum_list (map (tied_count ev tm order)
          (filter (event_at ev order) [0..<length tm]))"
    using unscanned_counts(1) [OF a n] by (intro sum_scanned [OF n])
  also have "\<dots> = sum_list (map (\<lambda>j. count_true (map (\<lambda>k.
            (\<lambda>a b. tm ! b = tm ! a \<and> \<not> ev ! b) (order ! j) (order ! k)) [0..<length tm]))
          (filter (event_at ev order) [0..<length tm]))"
    by (intro arg_cong [where f = sum_list] map_cong refl)
      (simp add: tied_count_def time_at_def event_at_def)
  also have "\<dots> = count_pairs (length tm) (\<lambda>a b. ev ! a \<and> (tm ! b = tm ! a \<and> \<not> ev ! b))"
    by (rule pairs_over_positions [OF a])
  also have "\<dots> = tied_time_pairs ev tm"
    unfolding tied_time_pairs_def
    by (intro arg_cong [where f = "count_pairs (length tm)"] ext) blast
  finally show ?thesis .
qed

lemma bool_index_set:
  "length xs = length m \<Longrightarrow> set (bool_index xs m) = {xs ! k | k. k < length xs \<and> m ! k}"
  by (auto simp: bool_index_def set_zip image_iff) force

lemma bool_index_excludes:
  assumes "distinct xs" "length xs = length m" "k < length xs" "\<not> m ! k"
  shows "xs ! k \<notin> set (bool_index xs m)"
proof
  assume "xs ! k \<in> set (bool_index xs m)"
  then obtain k' where "xs ! k = xs ! k'" "k' < length xs" "m ! k'"
    unfolding bool_index_set [OF assms(2)] by blast
  with assms(1,3) have "k = k'" by (simp add: nth_eq_iff_index_eq)
  with \<open>m ! k'\<close> assms(4) show False by simp
qed

lemma concordance_index_censored_Inr:
  assumes "check_inputs ev tm est = Inr (ev, tm, est)"
    and "concordance_index_censored ev tm est tol order = Inr r"
  shows "\<exists>a. accumulate ev est (replicate (length est) 1) tol order
               (fst (get_comparable ev tm order)) acc0 = Inr a \<and>
             r = (fdiv (numerator a) (denominator a), concordant a, discordant a, tied_risk a,
                  snd (get_comparable ev tm order))"
  using assms(2) unfolding concordance_index_censored_valid [OF assms(1)]
    estimate_concordance_index_eq
  by (auto split: if_splits sum.splits)

subsection \<open>The accumulated counters\<close>

lemma bool_index_length: "length xs = length m \<Longrightarrow> int (length (bool_index xs m)) = count_true m"
proof (induction xs m rule: list_induct2)
  case Nil
  show ?case by (simp add: bool_index_def count_true_def)
next
  case (Cons x xs b m)
  then show ?case by (simp add: bool_index_def count_true_def)
qed

lemma acc_step_denominator:
  "denominator (acc_step est w tol order ind m a)
   = denominator a + w ! (order ! ind) * of_int (count_true m)"
  by (simp add: acc_step_def Let_def)

lemma acc_step_counts:
  "concordant (acc_step est w tol order ind m a) + discordant (acc_step est w tol order ind m a)
     + tied_risk (acc_step est w tol order ind m a)
   = concordant a + discordant a + tied_risk a + int (length (bool_index order m))"
  by (simp add: acc_step_def Let_def take_idx_def)

lemma fold_denominator:
  "\<forall>p\<in>set cs. w ! (order ! fst p) = 1 \<Longrightarrow>
   denominator (fold (\<lambda>p. acc_step est w tol order (fst p) (snd p)) cs a)
   = denominator a + of_int (sum_list (map (\<lambda>p. count_true (snd p)) cs))"
  by (induction cs arbitrary: a) (simp_all add: acc_step_denominator)

lemma fold_counts:
  "\<forall>p\<in>set cs. length (snd p) = length order \<Longrightarrow>
   concordant (fold (\<lambda>p. acc_step est w tol order (fst p) (snd p)) cs a)
     + discordant (fold (\<lambda>p. acc_step est w tol order (fst p) (snd p)) cs a)
     + tied_risk (fold (\<lambda>p. acc_step est w tol order (fst p) (snd p)) cs a)
   = concordant a + discordant a + tied_risk a + sum_list (map (\<lambda>p. count_true (snd p)) cs)"
proof (induction cs arbitrary: a)
  case Nil
  show ?case by simp
next
  case (Cons p cs)
  from Cons.prems have l: "length order = length (snd p)" by simp
  have "\<forall>p\<in>set cs. length (snd p) = length order" using Cons.prems by simp
  from Cons.IH [OF this, of "acc_step est w tol order (fst p) (snd p) a"]
  show ?case by (simp add: acc_step_counts bool_index_length [OF l])
qed

lemma count_true_disj:
  "\<forall>x\<in>set xs. \<not> (P x \<and> Q x) \<Longrightarrow>
   count_true (map (\<lambda>x. P x \<or> Q x) xs) = count_true (map P xs) + count_true (map Q xs)"
  by (induction xs) (auto simp: count_true_def)

lemma expected_mask_count:
  "count_true (expected_mask ev tm order j) = later_count tm order j + tied_count ev tm order j"
  unfolding expected_mask_def later_count_def tied_count_def
  by (intro count_true_disj) auto

lemma mask_total:
  assumes a: "is_argsort tm order" and n: "2 \<le> length tm"
  shows "sum_list (map (\<lambda>p. count_true (snd p)) (fst (get_comparable ev tm order)))
       = later_pairs ev tm + tied_time_pairs ev tm"
proof -
  let ?E = "event_at ev order"
  let ?N = "n_scanned tm order"
  have "sum_list (map (\<lambda>p. count_true (snd p)) (fst (get_comparable ev tm order)))
      = sum_list (map (\<lambda>j. later_count tm order j + tied_count ev tm order j) (filter ?E [0..<?N]))"
    by (simp add: get_comparable_eq [OF a] comp_def expected_mask_count)
  also have "\<dots> = sum_list (map (later_count tm order) (filter ?E [0..<?N]))
      + sum_list (map (tied_count ev tm order) (filter ?E [0..<?N]))"
    by (rule sum_list_addf)
  also have "sum_list (map (tied_count ev tm order) (filter ?E [0..<?N])) = tied_time_pairs ev tm"
    using tied_time_total [OF a n, of ev] by (simp add: get_comparable_eq [OF a])
  also have "sum_list (map (later_count tm order) (filter ?E [0..<?N]))
      = sum_list (map (later_count tm order) (filter ?E [0..<length tm]))"
    using unscanned_counts(2) [OF a n] by (intro sum_scanned [OF n])
  also have "\<dots> = sum_list (map (\<lambda>j. count_true (map (\<lambda>k.
            (\<lambda>a b. tm ! a < tm ! b) (order ! j) (order ! k)) [0..<length tm]))
          (filter ?E [0..<length tm]))"
    by (intro arg_cong [where f = sum_list] map_cong refl)
      (simp add: later_count_def time_at_def)
  also have "\<dots> = count_pairs (length tm) (\<lambda>a b. ev ! a \<and> tm ! a < tm ! b)"
    by (rule pairs_over_positions [OF a])
  also have "\<dots> = later_pairs ev tm" by (simp add: later_pairs_def)
  finally show ?thesis .
qed

lemma accumulate_comparable:
  assumes v: "check_inputs ev tm est = Inr (ev, tm, est)" and a: "is_argsort tm order"
  shows "accumulate ev est (replicate (length est) 1) tol order
           (fst (get_comparable ev tm order)) acc0
         = Inr (fold (\<lambda>p. acc_step est (replicate (length est) 1) tol order (fst p) (snd p))
                  (fst (get_comparable ev tm order)) acc0)"
proof -
  from v have "length (replicate (length est) (1 :: rat)) = length tm"
    by (auto dest: check_inputs_Inr)
  from get_comparable_entry_ok [OF v a this] show ?thesis by (intro accumulate_fold) blast
qed

lemma unit_weight_at_key:
  assumes v: "check_inputs ev tm est = Inr (ev, tm, est)" and a: "is_argsort tm order"
    and p: "p \<in> set (fst (get_comparable ev tm order))"
  shows "replicate (length est) (1 :: rat) ! (order ! fst p) = 1"
proof -
  from v have l: "length est = length tm" by (auto dest: check_inputs_Inr)
  from get_comparable_entries(1) [OF a p] n_scanned_le [of tm order]
  have "fst p < length tm" by simp
  then have "order ! fst p < length tm" by (rule argsort_nth_less [OF a])
  then show ?thesis by (simp add: l)
qed

subsection \<open>Negated estimates\<close>

lemma fl64_minus: "fl64 (- x) = - fl64 x"
  by (simp add: fl64_def Let_def)

lemma is_tie_neg: "is_tie tol (- e) (- x) = is_tie tol e x"
proof -
  have "fsub (- x) (- e) = - fsub x e"
    unfolding fsub_def using fl64_minus [of "x - e"] by simp
  then show ?thesis by (simp add: is_tie_def)
qed

lemma is_tie_self: "0 \<le> tol \<Longrightarrow> is_tie tol e e"
  by (simp add: is_tie_def fsub_def fl64_def)

lemma take_idx_uminus:
  "\<forall>k\<in>set idx. k < length est \<Longrightarrow>
   take_idx (map uminus est) idx = map uminus (take_idx est idx)"
  by (simp add: take_idx_def)

lemma bool_index_all:
  "\<forall>x\<in>set xs. \<not> T x \<Longrightarrow> bool_index (map C xs) (map Not (map T xs)) = map C xs"
  by (induction xs) (simp_all add: bool_index_def)

lemma count_less_greater:
  fixes e :: rat
  shows "\<forall>x\<in>set xs. x \<noteq> e \<Longrightarrow>
    count_true (map (\<lambda>x. x < e) xs) + count_true (map (\<lambda>x. e < x) xs) = int (length xs)"
  by (induction xs) (auto simp: count_true_def)

lemma acc_step_mirrored:
  assumes r: "mirrored a b" and tol: "0 \<le> tol"
    and l: "length m = length order" and o: "\<forall>k\<in>set order. k < length est"
    and i: "ind < length order"
    and nt: "\<forall>x\<in>set (take_idx est (bool_index order m)). \<not> is_tie tol (est ! (order ! ind)) x"
  shows "mirrored (acc_step est w tol order ind m a)
           (acc_step (map uminus est) w tol order ind m b)"
proof -
  let ?e = "est ! (order ! ind)"
  let ?es = "take_idx est (bool_index order m)"
  let ?w = "w ! (order ! ind)"
  from i o have oi: "order ! ind < length est" by simp
  then have e': "map uminus est ! (order ! ind) = - ?e" by simp
  have "\<forall>k\<in>set (bool_index order m). k < length est"
    using o bool_index_subset [of order m] by blast
  then have es': "take_idx (map uminus est) (bool_index order m) = map uminus ?es"
    by (rule take_idx_uminus)
  have ne: "\<forall>x\<in>set ?es. x \<noteq> ?e" using nt is_tie_self [OF tol] by blast
  have t0: "count_true (map (is_tie tol ?e) ?es) = 0" using nt by (intro count_true_zero) blast
  have len: "int (length ?es) = count_true m"
    using bool_index_length [of order m] l by (simp add: take_idx_def)
  have c1: "bool_index (map (\<lambda>x. x < ?e) ?es) (map Not (map (is_tie tol ?e) ?es))
      = map (\<lambda>x. x < ?e) ?es"
    using nt by (intro bool_index_all) blast
  have ties': "map (is_tie tol (- ?e)) (map uminus ?es) = map (is_tie tol ?e) ?es"
    by (simp add: is_tie_neg)
  have con': "map (\<lambda>x. x < - ?e) (map uminus ?es) = map (\<lambda>x. ?e < x) ?es"
    by simp
  have c2: "bool_index (map (\<lambda>x. ?e < x) ?es) (map Not (map (is_tie tol ?e) ?es))
      = map (\<lambda>x. ?e < x) ?es"
    using nt by (intro bool_index_all) blast
  define p where "p = count_true (map (\<lambda>x. x < ?e) ?es)"
  define q where "q = count_true (map (\<lambda>x. ?e < x) ?es)"
  have pq: "p + q = count_true m"
    unfolding p_def q_def using count_less_greater [OF ne] len by simp
  have A: "acc_step est w tol order ind m a =
      a\<lparr>numerator := numerator a + (?w * of_int p + (1 / 2) * ?w * of_int 0),
        denominator := denominator a + ?w * of_int (count_true m),
        tied_risk := tied_risk a + 0,
        concordant := concordant a + p,
        discordant := discordant a + (count_true m - p - 0)\<rparr>"
    unfolding acc_step_def Let_def t0 c1 len p_def ..
  have B: "acc_step (map uminus est) w tol order ind m b =
      b\<lparr>numerator := numerator b + (?w * of_int q + (1 / 2) * ?w * of_int 0),
        denominator := denominator b + ?w * of_int (count_true m),
        tied_risk := tied_risk b + 0,
        concordant := concordant b + q,
        discordant := discordant b + (count_true m - q - 0)\<rparr>"
    unfolding acc_step_def Let_def e' es' ties' con' t0 c2 length_map len q_def ..
  have cm: "count_true m = p + q" using pq by simp
  show ?thesis
    using r unfolding A B mirrored_def cm by (simp add: algebra_simps)
qed

lemma fold_mirrored:
  assumes tol: "0 \<le> tol" and o: "\<forall>k\<in>set order. k < length est"
  shows "mirrored a b \<Longrightarrow>
    \<forall>p\<in>set cs. fst p < length order \<and> length (snd p) = length order \<and>
      (\<forall>x\<in>set (take_idx est (bool_index order (snd p))).
         \<not> is_tie tol (est ! (order ! fst p)) x) \<Longrightarrow>
    mirrored (fold (\<lambda>p. acc_step est w tol order (fst p) (snd p)) cs a)
      (fold (\<lambda>p. acc_step (map uminus est) w tol order (fst p) (snd p)) cs b)"
proof (induction cs arbitrary: a b)
  case Nil
  then show ?case by simp
next
  case (Cons p cs)
  from Cons.prems(2) have "length (snd p) = length order" "fst p < length order"
    "\<forall>x\<in>set (take_idx est (bool_index order (snd p))). \<not> is_tie tol (est ! (order ! fst p)) x"
    by simp_all
  with Cons.prems(1) tol o
  have "mirrored (acc_step est w tol order (fst p) (snd p) a)
      (acc_step (map uminus est) w tol order (fst p) (snd p) b)"
    by (intro acc_step_mirrored)
  moreover from Cons.prems(2)
  have "\<forall>p\<in>set cs. fst p < length order \<and> length (snd p) = length order \<and>
      (\<forall>x\<in>set (take_idx est (bool_index order (snd p))).
         \<not> is_tie tol (est ! (order ! fst p)) x)"
    by simp
  ultimately show ?case using Cons.IH by simp
qed

lemma expected_mask_self:
  "j < length tm \<Longrightarrow> event_at ev order j \<Longrightarrow> \<not> expected_mask ev tm order j ! j"
  by (simp add: expected_mask_def)

lemma comparable_no_ties:
  assumes v: "check_inputs ev tm est = Inr (ev, tm, est)" and a: "is_argsort tm order"
    and nt: "no_ties tol est" and p: "p \<in> set (fst (get_comparable ev tm order))"
  shows "\<forall>x\<in>set (take_idx est (bool_index order (snd p))).
           \<not> is_tie tol (est ! (order ! fst p)) x"
proof
  fix x
  assume x: "x \<in> set (take_idx est (bool_index order (snd p)))"
  let ?j = "fst p"
  from v have le: "length est = length tm" by (auto dest: check_inputs_Inr)
  have lo: "length order = length tm" using a by (rule argsort_length)
  from get_comparable_entries [OF a p] n_scanned_le [of tm order]
  have j: "?j < length tm" and e: "event_at ev order ?j"
    and m: "snd p = expected_mask ev tm order ?j" by simp_all
  have lm: "length order = length (snd p)" by (simp add: m lo expected_mask_length)
  from x obtain i where i: "i \<in> set (bool_index order (snd p))" and xi: "x = est ! i"
    by (auto simp: take_idx_def)
  from i obtain k where k: "i = order ! k" "k < length order" "snd p ! k"
    unfolding bool_index_set [OF lm] by blast
  from k(3) expected_mask_self [OF j e] have "k \<noteq> ?j" unfolding m by blast
  with k(2) j lo have ne: "order ! ?j \<noteq> order ! k"
    using argsort_distinct [OF a] by (simp add: nth_eq_iff_index_eq)
  have "order ! ?j < length est" "order ! k < length est"
    using argsort_nth_less [OF a] j k(2) lo le by simp_all
  moreover from nt have "a < length est \<Longrightarrow> b < length est \<Longrightarrow> a \<noteq> b \<Longrightarrow>
      \<not> is_tie tol (est ! a) (est ! b)" for a b
    unfolding no_ties_def by fastforce
  ultimately have "\<not> is_tie tol (est ! (order ! ?j)) (est ! (order ! k))"
    using ne by blast
  then show "\<not> is_tie tol (est ! (order ! fst p)) x" by (simp add: xi k(1))
qed

lemma mirrored_acc0: "mirrored acc0 acc0"
  by (simp add: mirrored_def acc0_def)

subsection \<open>Cumulative sums and products\<close>











subsection \<open>The range of the quotient\<close>

lemma bit_length_nonneg: "0 \<le> bit_length n"
proof (induction n rule: bit_length.induct)
  case (1 n)
  show ?case
  proof (cases "n \<le> 0")
    case True
    then show ?thesis by (subst bit_length.simps) simp
  next
    case False
    with 1 have "0 \<le> bit_length (n div 2)" by simp
    with False show ?thesis by (subst bit_length.simps) simp
  qed
qed

lemma binexp_le_unit: "0 < x \<Longrightarrow> x \<le> 1 \<Longrightarrow> binexp x \<le> 0"
proof (cases "x = 1")
  case True
  have "bit_length 1 = 1"
    by (subst bit_length.simps, subst bit_length.simps) simp
  with True show ?thesis by (simp add: binexp_def)
next
  case False
  assume "0 < x" "x \<le> 1"
  with False have "\<not> 1 \<le> x" by simp
  then show ?thesis using bit_length_nonneg [of "\<lceil>1 / x\<rceil> - 1"] by (simp add: binexp_def)
qed

lemma round_half_even_le: "x \<le> of_int k \<Longrightarrow> round_half_even x \<le> k"
proof -
  assume x: "x \<le> of_int k"
  then have f: "\<lfloor>x\<rfloor> \<le> k" by (simp add: floor_le_iff)
  show ?thesis
  proof (cases "x = of_int \<lfloor>x\<rfloor>")
    case True
    then have "x - of_int \<lfloor>x\<rfloor> < 1 / 2" by simp
    then show ?thesis using f by (simp add: round_half_even_def Let_def)
  next
    case False
    then have "of_int \<lfloor>x\<rfloor> < x" using of_int_floor_le [of x] by linarith
    with x have "of_int \<lfloor>x\<rfloor> < (of_int k :: rat)" by linarith
    then have "\<lfloor>x\<rfloor> < k" by simp
    then show ?thesis by (simp add: round_half_even_def Let_def)
  qed
qed

lemma round_half_even_nonneg: "0 \<le> x \<Longrightarrow> 0 \<le> round_half_even x"
proof -
  assume "0 \<le> x"
  then have "0 \<le> \<lfloor>x\<rfloor>" by simp
  then show ?thesis by (simp add: round_half_even_def Let_def)
qed

lemma fl64_unit: "0 \<le> x \<Longrightarrow> x \<le> 1 \<Longrightarrow> 0 \<le> fl64 x \<and> fl64 x \<le> 1"
proof (cases "x = 0")
  case True
  then show ?thesis by (simp add: fl64_def)
next
  case False
  assume "0 \<le> x" "x \<le> 1"
  with False have pos: "0 < x" by simp
  define e where "e = binexp \<bar>x\<bar>"
  define S :: int where "S = 2 ^ nat (52 - e)"
  define m where "m = round_half_even (\<bar>x\<bar> * 2 powi (52 - e))"
  have e: "e \<le> 0" unfolding e_def using pos \<open>x \<le> 1\<close> by (simp add: binexp_le_unit)
  then have s: "(2 :: rat) powi (52 - e) = of_int S" by (simp add: S_def power_int_def)
  have Spos: "0 < S" by (simp add: S_def)
  have inv: "(2 :: rat) powi (e - 52) = 1 / of_int S"
    using s power_int_minus [of "2 :: rat" "52 - e"] by (simp add: field_simps)
  have "\<bar>x\<bar> * of_int S \<le> of_int S" using pos \<open>x \<le> 1\<close> Spos
    by (simp add: mult_left_le_one_le)
  then have mle: "m \<le> S" unfolding m_def s by (rule round_half_even_le)
  have m0: "0 \<le> m" unfolding m_def s using pos Spos by (intro round_half_even_nonneg) simp
  have "fl64 x = of_int m * 2 powi (e - 52)"
    using False pos by (simp add: fl64_def Let_def m_def e_def)
  then have fl: "fl64 x = of_int m / of_int S" by (simp add: inv)
  from m0 mle Spos show ?thesis unfolding fl by simp
qed

lemma count_con_ties:
  "0 \<le> count_true (bool_index (map C xs) (map Not (map T xs))) \<and>
   0 \<le> count_true (map T xs) \<and>
   count_true (bool_index (map C xs) (map Not (map T xs))) + count_true (map T xs)
     \<le> int (length xs)"
  by (induction xs) (auto simp: bool_index_def count_true_def)

lemma acc_step_numerator:
  assumes l: "length m = length order" and w: "w ! (order ! ind) = 1"
    and a: "0 \<le> numerator a" "numerator a \<le> denominator a"
  shows "0 \<le> numerator (acc_step est w tol order ind m a) \<and>
         numerator (acc_step est w tol order ind m a) \<le> denominator (acc_step est w tol order ind m a)"
proof -
  let ?e = "est ! (order ! ind)"
  let ?es = "take_idx est (bool_index order m)"
  define p where "p = count_true (bool_index (map (\<lambda>x. x < ?e) ?es) (map Not (map (is_tie tol ?e) ?es)))"
  define q where "q = count_true (map (is_tie tol ?e) ?es)"
  have len: "int (length ?es) = count_true m"
    using bool_index_length [of order m] l by (simp add: take_idx_def)
  from count_con_ties [of "\<lambda>x. x < ?e" ?es "is_tie tol ?e"]
  have b: "0 \<le> p" "0 \<le> q" "p + q \<le> count_true m" by (simp_all add: p_def q_def len)
  have n: "numerator (acc_step est w tol order ind m a) = numerator a + (of_int p + of_int q / 2)"
    by (simp add: acc_step_def Let_def w p_def q_def)
  have d: "denominator (acc_step est w tol order ind m a) = denominator a + of_int (count_true m)"
    by (simp add: acc_step_denominator w)
  from b have "(of_int p :: rat) + of_int q \<le> of_int (count_true m)"
    by (simp flip: of_int_add)
  moreover from b have "(0 :: rat) \<le> of_int p" "(0 :: rat) \<le> of_int q" by simp_all
  ultimately show ?thesis using a unfolding n d by simp
qed

lemma fold_numerator:
  "\<forall>p\<in>set cs. length (snd p) = length order \<and> w ! (order ! fst p) = 1 \<Longrightarrow>
   0 \<le> numerator a \<and> numerator a \<le> denominator a \<Longrightarrow>
   0 \<le> numerator (fold (\<lambda>p. acc_step est w tol order (fst p) (snd p)) cs a) \<and>
   numerator (fold (\<lambda>p. acc_step est w tol order (fst p) (snd p)) cs a)
     \<le> denominator (fold (\<lambda>p. acc_step est w tol order (fst p) (snd p)) cs a)"
proof (induction cs arbitrary: a)
  case Nil
  then show ?case by simp
next
  case (Cons p cs)
  from Cons.prems have "length (snd p) = length order" "w ! (order ! fst p) = 1"
    "0 \<le> numerator a" "numerator a \<le> denominator a" by simp_all
  then have "0 \<le> numerator (acc_step est w tol order (fst p) (snd p) a) \<and>
      numerator (acc_step est w tol order (fst p) (snd p) a)
        \<le> denominator (acc_step est w tol order (fst p) (snd p) a)"
    by (rule acc_step_numerator)
  moreover from Cons.prems(1)
  have "\<forall>p\<in>set cs. length (snd p) = length order \<and> w ! (order ! fst p) = 1" by simp
  ultimately show ?case using Cons.IH by simp
qed

lemma cindex_in_unit_interval:
  assumes v: "check_inputs ev tm est = Inr (ev, tm, est)" and a: "is_argsort tm order"
    and r: "concordance_index_censored ev tm est tol order = Inr r"
    and pairs: "later_pairs ev tm + tied_time_pairs ev tm \<noteq> 0"
  shows "in_unit_interval (fst r)"
proof -
  let ?w = "replicate (length est) (1 :: rat)"
  let ?cs = "fst (get_comparable ev tm order)"
  let ?a = "fold (\<lambda>p. acc_step est ?w tol order (fst p) (snd p)) ?cs acc0"
  from v have n: "2 \<le> length tm" by (auto dest: check_inputs_Inr)
  have acc: "accumulate ev est ?w tol order ?cs acc0 = Inr ?a"
    using v a by (rule accumulate_comparable)
  from concordance_index_censored_Inr [OF v r] acc
  have r': "fst r = fdiv (numerator ?a) (denominator ?a)" by auto
  have wf: "\<forall>p\<in>set ?cs. length (snd p) = length order \<and> ?w ! (order ! fst p) = 1"
    using get_comparable_wf [OF a] unit_weight_at_key [OF v a] by blast
  then have "\<forall>p\<in>set ?cs. ?w ! (order ! fst p) = 1" by blast
  then have "denominator ?a = denominator acc0 + of_int (sum_list (map (\<lambda>p. count_true (snd p)) ?cs))"
    by (rule fold_denominator)
  then have den: "denominator ?a = of_int (later_pairs ev tm + tied_time_pairs ev tm)"
    using mask_total [OF a n, of ev] by (simp add: acc0_def)
  with pairs have d0: "denominator ?a \<noteq> 0" by simp
  have "0 \<le> numerator acc0 \<and> numerator acc0 \<le> denominator acc0" by (simp add: acc0_def)
  with wf have b: "0 \<le> numerator ?a \<and> numerator ?a \<le> denominator ?a" by (rule fold_numerator)
  with d0 have dpos: "0 < denominator ?a" by simp
  with b have "0 \<le> numerator ?a / denominator ?a" "numerator ?a / denominator ?a \<le> 1"
    by simp_all
  then have "0 \<le> fl64 (numerator ?a / denominator ?a) \<and> fl64 (numerator ?a / denominator ?a) \<le> 1"
    by (rule fl64_unit)
  with d0 show ?thesis by (simp add: r' fdiv_def in_unit_interval_def)
qed

lemma cindex_nan_without_pairs:
  assumes v: "check_inputs ev tm est = Inr (ev, tm, est)" and a: "is_argsort tm order"
    and r: "concordance_index_censored ev tm est tol order = Inr r"
    and pairs: "later_pairs ev tm + tied_time_pairs ev tm = 0"
  shows "fst r = NaN"
proof -
  let ?w = "replicate (length est) (1 :: rat)"
  let ?cs = "fst (get_comparable ev tm order)"
  let ?a = "fold (\<lambda>p. acc_step est ?w tol order (fst p) (snd p)) ?cs acc0"
  from v have n: "2 \<le> length tm" by (auto dest: check_inputs_Inr)
  have acc: "accumulate ev est ?w tol order ?cs acc0 = Inr ?a"
    using v a by (rule accumulate_comparable)
  from concordance_index_censored_Inr [OF v r] acc
  have r': "fst r = fdiv (numerator ?a) (denominator ?a)" by auto
  have wf: "\<forall>p\<in>set ?cs. length (snd p) = length order \<and> ?w ! (order ! fst p) = 1"
    using get_comparable_wf [OF a] unit_weight_at_key [OF v a] by blast
  then have "\<forall>p\<in>set ?cs. ?w ! (order ! fst p) = 1" by blast
  then have "denominator ?a = denominator acc0 + of_int (sum_list (map (\<lambda>p. count_true (snd p)) ?cs))"
    by (rule fold_denominator)
  then have "denominator ?a = of_int (later_pairs ev tm + tied_time_pairs ev tm)"
    using mask_total [OF a n, of ev] by (simp add: acc0_def)
  with pairs have d0: "denominator ?a = 0" by simp
  have "0 \<le> numerator acc0 \<and> numerator acc0 \<le> denominator acc0" by (simp add: acc0_def)
  with wf have "0 \<le> numerator ?a \<and> numerator ?a \<le> denominator ?a" by (rule fold_numerator)
  with d0 have "numerator ?a = 0" by simp
  with d0 show ?thesis by (simp add: r' fdiv_def)
qed

section \<open>The claims\<close>

text \<open>
  C3. For a validated input and a sort order of its times, the mapping of
  \<^verbatim>\<open>_get_comparable\<close> has an entry at the sort position \<open>j\<close> exactly when the sample
  there is uncensored and is not a last sample that stands alone at its time (the outer
  loop stops before the last position). The mask of an entry is true exactly at the
  samples of strictly later times and at the censored samples of the same time; so it is
  false at the other events of that time, at the sample itself and at every earlier sample.
\<close>

theorem get_comparable_mask_of_each_event:
  assumes "check_inputs ev tm est = Inr (ev, tm, est)" and "is_argsort tm order"
    and "j < length tm"
  shows "case map_of (fst (get_comparable ev tm order)) j of
           None \<Rightarrow> \<not> event_at ev order j \<or> (j = length tm - 1 \<and> last_alone tm order)
         | Some m \<Rightarrow>
             event_at ev order j \<and> \<not> (j = length tm - 1 \<and> last_alone tm order) \<and>
             length m = length tm \<and>
             (\<forall>k<length tm. m ! k \<longleftrightarrow>
                (time_at tm order j < time_at tm order k \<or>
                 (time_at tm order k = time_at tm order j \<and> \<not> event_at ev order k)))"
proof -
  from assms(1) have n: "2 \<le> length tm" by (auto dest: check_inputs_Inr)
  have nth: "expected_mask ev tm order j ! k \<longleftrightarrow>
        (time_at tm order j < time_at tm order k \<or>
         (time_at tm order k = time_at tm order j \<and> \<not> event_at ev order k))"
    if "k < length tm" for k
    using that by (simp add: expected_mask_def)
  show ?thesis
  proof (cases "event_at ev order j \<and> j < n_scanned tm order")
    case True
    then have "map_of (fst (get_comparable ev tm order)) j = Some (expected_mask ev tm order j)"
      by (simp add: get_comparable_map_of [OF assms(2)])
    with True n_scanned_iff [OF n assms(3), of order] nth show ?thesis
      by (simp add: expected_mask_length)
  next
    case False
    then have "map_of (fst (get_comparable ev tm order)) j = None"
      by (simp add: get_comparable_map_of [OF assms(2)])
    with False n_scanned_iff [OF n assms(3), of order] show ?thesis by auto
  qed
qed

theorem get_comparable_mask_of_each_event_witness:
  "check_inputs [True, True, False, True] [1, 2, 2, 3] [9 / 10, 1 / 2, 1 / 2, 1 / 10]
     = Inr ([True, True, False, True], [1, 2, 2, 3], [9 / 10, 1 / 2, 1 / 2, 1 / 10]) \<and>
   is_argsort [1, 2, 2, 3] [0, 1, 2, 3] \<and>
   (1 :: nat) < length [1, 2, 2, 3 :: rat] \<and>
   map_of (fst (get_comparable [True, True, False, True] [1, 2, 2, 3] [0, 1, 2, 3])) 1
     = Some [False, False, True, True] \<and>
   (case map_of (fst (get_comparable [True, True, False, True] [1, 2, 2, 3] [0, 1, 2, 3])) 1 of
      None \<Rightarrow> \<not> event_at [True, True, False, True] [0, 1, 2, 3] 1 \<or>
        ((1 :: nat) = length [1, 2, 2, 3 :: rat] - 1 \<and> last_alone [1, 2, 2, 3] [0, 1, 2, 3])
    | Some m \<Rightarrow>
        event_at [True, True, False, True] [0, 1, 2, 3] 1 \<and>
        \<not> ((1 :: nat) = length [1, 2, 2, 3 :: rat] - 1 \<and> last_alone [1, 2, 2, 3] [0, 1, 2, 3]) \<and>
        length m = length [1, 2, 2, 3 :: rat] \<and>
        (\<forall>k<length [1, 2, 2, 3 :: rat]. m ! k \<longleftrightarrow>
           (time_at [1, 2, 2, 3] [0, 1, 2, 3] 1 < time_at [1, 2, 2, 3] [0, 1, 2, 3] k \<or>
            (time_at [1, 2, 2, 3] [0, 1, 2, 3] k = time_at [1, 2, 2, 3] [0, 1, 2, 3] 1 \<and>
             \<not> event_at [True, True, False, True] [0, 1, 2, 3] k))))"
proof -
  have h1: "check_inputs [True, True, False, True] [1, 2, 2, 3] [9 / 10, 1 / 2, 1 / 2, 1 / 10]
     = Inr ([True, True, False, True], [1, 2, 2, 3], [9 / 10, 1 / 2, 1 / 2, 1 / 10])"
    by (simp add: check_inputs_def)
  have h2: "is_argsort [1, 2, 2, 3] [0, 1, 2, 3]" by code_simp
  have h3: "(1 :: nat) < length [1, 2, 2, 3 :: rat]" by simp
  have v: "map_of (fst (get_comparable [True, True, False, True] [1, 2, 2, 3] [0, 1, 2, 3])) 1
     = Some [False, False, True, True]" by code_simp
  show ?thesis
    by (intro conjI h1 h2 h3 v get_comparable_mask_of_each_event [OF h1 h2 h3])
qed

theorem last_event_alone_has_no_entry:
  "check_inputs [True, True] [1, 2] [0, 0] = Inr ([True, True], [1, 2], [0, 0]) \<and>
   is_argsort [1, 2] [0, 1] \<and>
   event_at [True, True] [0, 1] 1 \<and>
   map_of (fst (get_comparable [True, True] [1, 2] [0, 1])) 1 = None"
  by code_simp

text \<open>
  C7. For a validated input, every key of the mapping of \<^verbatim>\<open>_get_comparable\<close> is the sort
  position of an uncensored sample, so neither \<^verbatim>\<open>_estimate_concordance_index\<close> nor its
  loop, with or without assertions, ever ends in the assertion's error on that mapping,
  whatever the weights and the tolerance. When Python runs with assertions enabled, as it
  does by default, the accumulation loop on any mapping whose keys and masks fit the
  arrays, with one weight for each sample, and which holds the position of a censored
  sample, ends in that assertion's error, for a censored sample, and returns no counters.
  Under \<^verbatim>\<open>python -O\<close> the assertion is not executed: the entry of the censored sample is
  processed and counters are returned.
\<close>

theorem comparable_keys_are_uncensored:
  assumes "check_inputs ev tm est = Inr (ev, tm, est)" and "is_argsort tm order"
  shows "(\<forall>p\<in>set (fst (get_comparable ev tm order)). ev ! (order ! fst p)) \<and>
         (\<forall>w tol k. estimate_concordance_index ev tm est w tol order \<noteq> Inl (AssertionError k)) \<and>
         (\<forall>debug w tol a k.
            accumulate_loop debug ev est w tol order (fst (get_comparable ev tm order)) a
              \<noteq> Inl (AssertionError k)) \<and>
         (\<forall>cs w tol a.
            length w = length order \<longrightarrow>
            (\<forall>p\<in>set cs. fst p < length order \<and> length (snd p) = length order) \<longrightarrow>
            (\<exists>p\<in>set cs. \<not> ev ! (order ! fst p)) \<longrightarrow>
            (\<exists>k. accumulate ev est w tol order cs a = Inl (AssertionError (Some k)) \<and> \<not> ev ! k))"
proof (intro conjI allI impI)
  show keys: "\<forall>p\<in>set (fst (get_comparable ev tm order)). ev ! (order ! fst p)"
    using get_comparable_wf [OF assms(2)] by blast
  {
    fix debug w tol a k
    from keys
    show "accumulate_loop debug ev est w tol order (fst (get_comparable ev tm order)) a
        \<noteq> Inl (AssertionError k)"
      by (rule accumulate_loop_never_asserts)
  }
  note never = this
  {
    fix w tol k
    from never [of True w tol acc0 k]
    show "estimate_concordance_index ev tm est w tol order \<noteq> Inl (AssertionError k)"
      by (auto simp add: estimate_concordance_index_eq accumulate_def split: sum.splits)
  }
next
  fix cs :: comparable and w :: "rat list" and tol :: rat and a :: acc
  assume w: "length w = length order"
    and wf: "\<forall>p\<in>set cs. fst p < length order \<and> length (snd p) = length order"
    and cen: "\<exists>p\<in>set cs. \<not> ev ! (order ! fst p)"
  from assms(1) have l: "length ev = length order" "length est = length order"
    using argsort_length [OF assms(2)] by (auto dest: check_inputs_Inr)
  have o: "\<forall>k\<in>set order. k < length order"
    by (simp add: argsort_set [OF assms(2)] argsort_length [OF assms(2)])
  have "\<forall>p\<in>set cs. entry_ok ev est w order (fst p) (snd p)"
    using wf by (auto intro!: arrays_entry_ok [OF l w o])
  then show "\<exists>k. accumulate ev est w tol order cs a = Inl (AssertionError (Some k)) \<and> \<not> ev ! k"
    using cen by (rule accumulate_censored_key)
qed

theorem comparable_keys_are_uncensored_witness:
  "check_inputs [True, True, False, True] [1, 2, 2, 3] [9 / 10, 1 / 2, 1 / 2, 1 / 10]
     = Inr ([True, True, False, True], [1, 2, 2, 3], [9 / 10, 1 / 2, 1 / 2, 1 / 10]) \<and>
   is_argsort [1, 2, 2, 3] [0, 1, 2, 3] \<and>
   map fst (fst (get_comparable [True, True, False, True] [1, 2, 2, 3] [0, 1, 2, 3])) = [0, 1] \<and>
   estimate_concordance_index [True, True, False, True] [1, 2, 2, 3]
     [9 / 10, 1 / 2, 1 / 2, 1 / 10] [1, 1, 1, 1] tied_tol_1e_08 [0, 1, 2, 3]
     \<noteq> Inl (AssertionError (Some 2)) \<and>
   (\<exists>k. accumulate [True, True, False, True] [9 / 10, 1 / 2, 1 / 2, 1 / 10] [1, 1, 1, 1]
          tied_tol_1e_08 [0, 1, 2, 3] [(0, [False, True, True, True]), (2, [False, False, False, True])] acc0
        = Inl (AssertionError (Some k)) \<and> \<not> [True, True, False, True] ! k)"
proof -
  have h1: "check_inputs [True, True, False, True] [1, 2, 2, 3] [9 / 10, 1 / 2, 1 / 2, 1 / 10]
     = Inr ([True, True, False, True], [1, 2, 2, 3], [9 / 10, 1 / 2, 1 / 2, 1 / 10])"
    by (simp add: check_inputs_def)
  have h2: "is_argsort [1, 2, 2, 3] [0, 1, 2, 3]" by code_simp
  have v: "map fst (fst (get_comparable [True, True, False, True] [1, 2, 2, 3] [0, 1, 2, 3])) = [0, 1]"
    by code_simp
  note t = comparable_keys_are_uncensored [OF h1 h2]
  from t have b: "estimate_concordance_index [True, True, False, True] [1, 2, 2, 3]
     [9 / 10, 1 / 2, 1 / 2, 1 / 10] [1, 1, 1, 1] tied_tol_1e_08 [0, 1, 2, 3]
     \<noteq> Inl (AssertionError (Some 2))" by blast
  have lw: "length [1, 1, 1, 1 :: rat] = length [0, 1, 2, 3 :: nat]" by simp
  have wf: "\<forall>p\<in>set [(0 :: nat, [False, True, True, True]), (2, [False, False, False, True])].
      fst p < length [0, 1, 2, 3 :: nat] \<and> length (snd p) = length [0, 1, 2, 3 :: nat]"
    by simp
  have cen: "\<exists>p\<in>set [(0 :: nat, [False, True, True, True]), (2, [False, False, False, True])].
      \<not> [True, True, False, True] ! ([0, 1, 2, 3 :: nat] ! fst p)"
    by simp
  from t lw wf cen
  have c: "\<exists>k. accumulate [True, True, False, True] [9 / 10, 1 / 2, 1 / 2, 1 / 10] [1, 1, 1, 1]
          tied_tol_1e_08 [0, 1, 2, 3] [(0, [False, True, True, True]), (2, [False, False, False, True])] acc0
        = Inl (AssertionError (Some k)) \<and> \<not> [True, True, False, True] ! k"
    by blast
  show ?thesis by (intro conjI h1 h2 v b c)
qed

theorem censored_key_is_processed_without_assertions:
  "\<not> [True, True, False, True] ! ([0, 1, 2, 3] ! 2) \<and>
   accumulate [True, True, False, True] [9 / 10, 1 / 2, 1 / 2, 1 / 10] [1, 1, 1, 1]
     tied_tol_1e_08 [0, 1, 2, 3]
     [(0, [False, True, True, True]), (2, [False, False, False, True])] acc0
     = Inl (AssertionError (Some 2)) \<and>
   accumulate_loop False [True, True, False, True] [9 / 10, 1 / 2, 1 / 2, 1 / 10] [1, 1, 1, 1]
     tied_tol_1e_08 [0, 1, 2, 3]
     [(0, [False, True, True, True]), (2, [False, False, False, True])] acc0
     = Inr \<lparr>numerator = 4, denominator = 4, concordant = 4, discordant = 0, tied_risk = 0\<rparr> \<and>
   accumulate [True, True, False, True] [9 / 10, 1 / 2, 1 / 2, 1 / 10] [1, 1]
     tied_tol_1e_08 [0, 1, 2, 3]
     [(2, [False, False, False, True])] acc0
     = Inl (IndexError ''index is out of bounds'')"
  by code_simp

text \<open>
  C4. On arrays that pass the shape checks (equal lengths, not empty),
  \<^verbatim>\<open>concordance_index_censored\<close> answers inadequate data with one of three different errors
  and with no value: fewer than two samples, then no event among at least two samples,
  then an empty comparable mapping. It returns a value exactly when none of the three
  holds.
\<close>

theorem inadequate_data_errors:
  assumes "length ev = length tm" and "length est = length tm" and "tm \<noteq> []"
    and "is_argsort tm order"
  shows "(length tm < 2 \<longrightarrow>
            concordance_index_censored ev tm est tol order
              = Inl (ValueError ''Need a minimum of two samples'')) \<and>
         (2 \<le> length tm \<and> True \<notin> set ev \<longrightarrow>
            concordance_index_censored ev tm est tol order
              = Inl (ValueError ''All samples are censored'')) \<and>
         (2 \<le> length tm \<and> True \<in> set ev \<and> fst (get_comparable ev tm order) = [] \<longrightarrow>
            concordance_index_censored ev tm est tol order
              = Inl (NoComparablePairException
                  ''Data has no comparable pairs, cannot estimate concordance index.'')) \<and>
         (2 \<le> length tm \<and> True \<in> set ev \<and> fst (get_comparable ev tm order) \<noteq> [] \<longrightarrow>
            (\<exists>r. concordance_index_censored ev tm est tol order = Inr r)) \<and>
         ValueError ''Need a minimum of two samples'' \<noteq> ValueError ''All samples are censored'' \<and>
         ValueError ''Need a minimum of two samples'' \<noteq> NoComparablePairException
           ''Data has no comparable pairs, cannot estimate concordance index.'' \<and>
         ValueError ''All samples are censored'' \<noteq> NoComparablePairException
           ''Data has no comparable pairs, cannot estimate concordance index.''"
proof (intro conjI impI)
  assume "length tm < 2"
  with assms(1-3) show "concordance_index_censored ev tm est tol order
      = Inl (ValueError ''Need a minimum of two samples'')"
    by (simp add: concordance_index_censored_def check_inputs_def)
next
  assume "2 \<le> length tm \<and> True \<notin> set ev"
  with assms(1-3) show "concordance_index_censored ev tm est tol order
      = Inl (ValueError ''All samples are censored'')"
    by (simp add: concordance_index_censored_def check_inputs_def)
next
  assume c: "2 \<le> length tm \<and> True \<in> set ev \<and> fst (get_comparable ev tm order) = []"
  with assms(1-3) have "check_inputs ev tm est = Inr (ev, tm, est)"
    by (simp add: check_inputs_def)
  with c show "concordance_index_censored ev tm est tol order
      = Inl (NoComparablePairException
          ''Data has no comparable pairs, cannot estimate concordance index.'')"
    by (simp add: concordance_index_censored_valid estimate_concordance_index_eq)
next
  assume c: "2 \<le> length tm \<and> True \<in> set ev \<and> fst (get_comparable ev tm order) \<noteq> []"
  with assms(1-3) have v: "check_inputs ev tm est = Inr (ev, tm, est)"
    by (simp add: check_inputs_def)
  from assms(2) have "length (replicate (length est) (1 :: rat)) = length tm" by simp
  from accumulate_comparable_total [OF v assms(4) this]
  obtain a' where "accumulate ev est (replicate (length est) 1) tol order
      (fst (get_comparable ev tm order)) acc0 = Inr a'"
    by blast
  with c v show "\<exists>r. concordance_index_censored ev tm est tol order = Inr r"
    by (simp add: concordance_index_censored_valid estimate_concordance_index_eq)
qed simp_all


theorem inadequate_data_errors_witness:
  "is_argsort [5] [0] \<and>
   concordance_index_censored [True] [5] [0] tied_tol_1e_08 [0]
     = Inl (ValueError ''Need a minimum of two samples'') \<and>
   is_argsort [1, 2] [0, 1] \<and> True \<notin> set [False, False] \<and>
   concordance_index_censored [False, False] [1, 2] [0, 0] tied_tol_1e_08 [0, 1]
     = Inl (ValueError ''All samples are censored'') \<and>
   True \<in> set [False, True] \<and> fst (get_comparable [False, True] [1, 2] [0, 1]) = [] \<and>
   concordance_index_censored [False, True] [1, 2] [0, 0] tied_tol_1e_08 [0, 1]
     = Inl (NoComparablePairException
         ''Data has no comparable pairs, cannot estimate concordance index.'') \<and>
   True \<in> set [True, True] \<and> fst (get_comparable [True, True] [1, 2] [0, 1]) \<noteq> [] \<and>
   (\<exists>r. concordance_index_censored [True, True] [1, 2] [0, 0] tied_tol_1e_08 [0, 1] = Inr r)"
proof -
  have s1: "is_argsort [5] [0]" by code_simp
  have s2: "is_argsort [1, 2] [0, 1]" by code_simp
  have e3: "fst (get_comparable [False, True] [1, 2] [0, 1]) = []" by code_simp
  have e4: "fst (get_comparable [True, True] [1, 2] [0, 1]) \<noteq> []" by code_simp
  have r1: "concordance_index_censored [True] [5] [0] tied_tol_1e_08 [0]
     = Inl (ValueError ''Need a minimum of two samples'')"
    using inadequate_data_errors [of "[True]" "[5]" "[0]" "[0]" tied_tol_1e_08] s1 by simp
  have r2: "concordance_index_censored [False, False] [1, 2] [0, 0] tied_tol_1e_08 [0, 1]
     = Inl (ValueError ''All samples are censored'')"
    using inadequate_data_errors [of "[False, False]" "[1, 2]" "[0, 0]" "[0, 1]" tied_tol_1e_08] s2
    by simp
  have r3: "concordance_index_censored [False, True] [1, 2] [0, 0] tied_tol_1e_08 [0, 1]
     = Inl (NoComparablePairException
         ''Data has no comparable pairs, cannot estimate concordance index.'')"
    using inadequate_data_errors [of "[False, True]" "[1, 2]" "[0, 0]" "[0, 1]" tied_tol_1e_08] s2 e3
    by simp
  have r4: "\<exists>r. concordance_index_censored [True, True] [1, 2] [0, 0] tied_tol_1e_08 [0, 1] = Inr r"
    using inadequate_data_errors [of "[True, True]" "[1, 2]" "[0, 0]" "[0, 1]" tied_tol_1e_08] s2 e4
    by simp
  show ?thesis using s1 s2 e3 e4 r1 r2 r3 r4 by simp
qed

text \<open>
  C5. For a validated input, the count \<open>tied_time\<close> of \<^verbatim>\<open>_get_comparable\<close>, which
  \<^verbatim>\<open>concordance_index_censored\<close> returns as the last component, is the number of ordered
  pairs of an event and a censored sample at the identical time. Two events at the
  identical time are no such pair, and neither appears in the other's mask, so the
  pair is not among the samples from which \<open>concordant\<close>, \<open>discordant\<close> and
  \<open>tied_risk\<close> are counted.
\<close>

theorem tied_time_counts_event_censored_pairs:
  assumes "check_inputs ev tm est = Inr (ev, tm, est)" and "is_argsort tm order"
  shows "snd (get_comparable ev tm order) = tied_time_pairs ev tm \<and>
         (\<forall>tol r. concordance_index_censored ev tm est tol order = Inr r \<longrightarrow>
            snd (snd (snd (snd r))) = tied_time_pairs ev tm) \<and>
         (\<forall>j k m. map_of (fst (get_comparable ev tm order)) j = Some m \<and> k < length tm \<and>
            event_at ev order k \<and> time_at tm order k = time_at tm order j \<longrightarrow>
            \<not> m ! k \<and> order ! k \<notin> set (bool_index order m))"
proof (intro conjI allI impI)
  from assms(1) have n: "2 \<le> length tm" by (auto dest: check_inputs_Inr)
  show tt: "snd (get_comparable ev tm order) = tied_time_pairs ev tm"
    using assms(2) n by (rule tied_time_total)
  {
    fix tol r
    assume "concordance_index_censored ev tm est tol order = Inr r"
    from concordance_index_censored_Inr [OF assms(1) this]
    show "snd (snd (snd (snd r))) = tied_time_pairs ev tm" using tt by auto
  }
  {
    fix j k m
    assume h: "map_of (fst (get_comparable ev tm order)) j = Some m \<and> k < length tm \<and>
      event_at ev order k \<and> time_at tm order k = time_at tm order j"
    then have m: "m = expected_mask ev tm order j"
      by (simp add: get_comparable_map_of [OF assms(2)] split: if_splits)
    with h show nk: "\<not> m ! k" by (simp add: expected_mask_def)
    have "length order = length m" using m argsort_length [OF assms(2)]
      by (simp add: expected_mask_length)
    moreover have "k < length order" using h argsort_length [OF assms(2)] by simp
    ultimately show "order ! k \<notin> set (bool_index order m)"
      using argsort_distinct [OF assms(2)] nk by (intro bool_index_excludes)
  }
qed

theorem tied_time_counts_event_censored_pairs_witness:
  "check_inputs [True, True, False, True] [1, 2, 2, 3] [9 / 10, 1 / 2, 1 / 2, 1 / 10]
     = Inr ([True, True, False, True], [1, 2, 2, 3], [9 / 10, 1 / 2, 1 / 2, 1 / 10]) \<and>
   is_argsort [1, 2, 2, 3] [0, 1, 2, 3] \<and>
   tied_time_pairs [True, True, False, True] [1, 2, 2, 3] = 1 \<and>
   snd (get_comparable [True, True, False, True] [1, 2, 2, 3] [0, 1, 2, 3])
     = tied_time_pairs [True, True, False, True] [1, 2, 2, 3] \<and>
   concordance_index_censored [True, True, False, True] [1, 2, 2, 3]
     [9 / 10, 1 / 2, 1 / 2, 1 / 10] tied_tol_1e_08 [0, 1, 2, 3]
     = Inr (Fin (8106479329266893 / 9007199254740992), 4, 0, 1, 1) \<and>
   snd (snd (snd (snd (Fin (8106479329266893 / 9007199254740992), 4 :: int, 0 :: int, 1 :: int, 1 :: int))))
     = tied_time_pairs [True, True, False, True] [1, 2, 2, 3]"
proof -
  have h1: "check_inputs [True, True, False, True] [1, 2, 2, 3] [9 / 10, 1 / 2, 1 / 2, 1 / 10]
     = Inr ([True, True, False, True], [1, 2, 2, 3], [9 / 10, 1 / 2, 1 / 2, 1 / 10])"
    by (simp add: check_inputs_def)
  have h2: "is_argsort [1, 2, 2, 3] [0, 1, 2, 3]" by code_simp
  have v: "tied_time_pairs [True, True, False, True] [1, 2, 2, 3] = 1" by code_simp
  have r: "concordance_index_censored [True, True, False, True] [1, 2, 2, 3]
     [9 / 10, 1 / 2, 1 / 2, 1 / 10] tied_tol_1e_08 [0, 1, 2, 3]
     = Inr (Fin (8106479329266893 / 9007199254740992), 4, 0, 1, 1)" by code_simp
  note t = tied_time_counts_event_censored_pairs [OF h1 h2]
  from t have a: "snd (get_comparable [True, True, False, True] [1, 2, 2, 3] [0, 1, 2, 3])
     = tied_time_pairs [True, True, False, True] [1, 2, 2, 3]" by blast
  from t r have b: "snd (snd (snd (snd (Fin (8106479329266893 / 9007199254740992), 4 :: int, 0 :: int, 1 :: int, 1 :: int))))
     = tied_time_pairs [True, True, False, True] [1, 2, 2, 3]" by blast
  show ?thesis by (intro conjI h1 h2 v a r b)
qed

text \<open>
  C6. For a validated input, with the unit weights of \<^verbatim>\<open>concordance_index_censored\<close>,
  the accumulation loop ends with \<open>concordant + discordant + tied_risk = denominator\<close>:
  every pair of a mask is counted in exactly one of the three. The denominator is the
  number of pairs of an event and a later sample plus \<open>tied_time\<close>: the pairs of an event
  and a censored sample at the identical time are comparable too, and are counted in it.
\<close>

theorem pair_conservation:
  assumes "check_inputs ev tm est = Inr (ev, tm, est)" and "is_argsort tm order"
  shows "\<exists>a. accumulate ev est (replicate (length est) 1) tol order
                (fst (get_comparable ev tm order)) acc0 = Inr a \<and>
             (fst (get_comparable ev tm order) \<noteq> [] \<longrightarrow>
                concordance_index_censored ev tm est tol order
                = Inr (fdiv (numerator a) (denominator a), concordant a, discordant a,
                       tied_risk a, tied_time_pairs ev tm)) \<and>
             of_int (concordant a + discordant a + tied_risk a) = denominator a \<and>
             denominator a = of_int (later_pairs ev tm + tied_time_pairs ev tm)"
proof -
  let ?w = "replicate (length est) (1 :: rat)"
  let ?cs = "fst (get_comparable ev tm order)"
  let ?a = "fold (\<lambda>p. acc_step est ?w tol order (fst p) (snd p)) ?cs acc0"
  from assms(1) have n: "2 \<le> length tm" by (auto dest: check_inputs_Inr)
  have acc: "accumulate ev est ?w tol order ?cs acc0 = Inr ?a"
    using assms by (rule accumulate_comparable)
  have total: "sum_list (map (\<lambda>p. count_true (snd p)) ?cs) = later_pairs ev tm + tied_time_pairs ev tm"
    using assms(2) n by (rule mask_total)
  have "\<forall>p\<in>set ?cs. ?w ! (order ! fst p) = 1"
    using unit_weight_at_key [OF assms] by blast
  then have "denominator ?a = denominator acc0 + of_int (sum_list (map (\<lambda>p. count_true (snd p)) ?cs))"
    by (rule fold_denominator)
  then have den: "denominator ?a = of_int (later_pairs ev tm + tied_time_pairs ev tm)"
    by (simp add: total acc0_def)
  have "\<forall>p\<in>set ?cs. length (snd p) = length order"
    using get_comparable_wf [OF assms(2)] by blast
  then have "concordant ?a + discordant ?a + tied_risk ?a
      = concordant acc0 + discordant acc0 + tied_risk acc0
        + sum_list (map (\<lambda>p. count_true (snd p)) ?cs)"
    by (rule fold_counts)
  then have cnt: "concordant ?a + discordant ?a + tied_risk ?a
      = later_pairs ev tm + tied_time_pairs ev tm"
    by (simp add: total acc0_def)
  have res: "concordance_index_censored ev tm est tol order
      = Inr (fdiv (numerator ?a) (denominator ?a), concordant ?a, discordant ?a,
             tied_risk ?a, tied_time_pairs ev tm)"
    if "?cs \<noteq> []"
    using that acc tied_time_total [OF assms(2) n, of ev]
    by (simp add: concordance_index_censored_valid [OF assms(1)] estimate_concordance_index_eq)
  show ?thesis
  proof (intro exI [of _ ?a] conjI impI)
    show "accumulate ev est ?w tol order ?cs acc0 = Inr ?a" by (rule acc)
    show "of_int (concordant ?a + discordant ?a + tied_risk ?a) = denominator ?a"
      by (simp only: cnt den)
    show "denominator ?a = of_int (later_pairs ev tm + tied_time_pairs ev tm)" by (rule den)
  next
    assume "?cs \<noteq> []"
    then show "concordance_index_censored ev tm est tol order
      = Inr (fdiv (numerator ?a) (denominator ?a), concordant ?a, discordant ?a,
             tied_risk ?a, tied_time_pairs ev tm)"
      by (rule res)
  qed
qed

theorem pair_conservation_witness:
  "check_inputs [True, True, False, True] [1, 2, 2, 3] [9 / 10, 1 / 2, 1 / 2, 1 / 10]
     = Inr ([True, True, False, True], [1, 2, 2, 3], [9 / 10, 1 / 2, 1 / 2, 1 / 10]) \<and>
   is_argsort [1, 2, 2, 3] [0, 1, 2, 3] \<and>
   later_pairs [True, True, False, True] [1, 2, 2, 3] = 4 \<and>
   tied_time_pairs [True, True, False, True] [1, 2, 2, 3] = 1 \<and>
   (\<exists>a. accumulate [True, True, False, True] [9 / 10, 1 / 2, 1 / 2, 1 / 10]
           (replicate (length [9 / 10, 1 / 2, 1 / 2, 1 / 10 :: rat]) 1) tied_tol_1e_08 [0, 1, 2, 3]
           (fst (get_comparable [True, True, False, True] [1, 2, 2, 3] [0, 1, 2, 3])) acc0 = Inr a \<and>
        of_int (concordant a + discordant a + tied_risk a) = denominator a \<and>
        denominator a = 5)"
proof -
  have h1: "check_inputs [True, True, False, True] [1, 2, 2, 3] [9 / 10, 1 / 2, 1 / 2, 1 / 10]
     = Inr ([True, True, False, True], [1, 2, 2, 3], [9 / 10, 1 / 2, 1 / 2, 1 / 10])"
    by (simp add: check_inputs_def)
  have h2: "is_argsort [1, 2, 2, 3] [0, 1, 2, 3]" by code_simp
  have l: "later_pairs [True, True, False, True] [1, 2, 2, 3] = 4" by code_simp
  have t: "tied_time_pairs [True, True, False, True] [1, 2, 2, 3] = 1" by code_simp
  from pair_conservation [OF h1 h2, of tied_tol_1e_08]
  have "\<exists>a. accumulate [True, True, False, True] [9 / 10, 1 / 2, 1 / 2, 1 / 10]
           (replicate (length [9 / 10, 1 / 2, 1 / 2, 1 / 10 :: rat]) 1) tied_tol_1e_08 [0, 1, 2, 3]
           (fst (get_comparable [True, True, False, True] [1, 2, 2, 3] [0, 1, 2, 3])) acc0 = Inr a \<and>
        of_int (concordant a + discordant a + tied_risk a) = denominator a \<and>
        denominator a = 5"
    unfolding l t by auto
  with h1 h2 l t show ?thesis by (intro conjI)
qed

theorem denominator_includes_tied_time_pairs:
  "check_inputs [True, False] [1, 1] [2, 1] = Inr ([True, False], [1, 1], [2, 1]) \<and>
   is_argsort [1, 1] [0, 1] \<and>
   fst (get_comparable [True, False] [1, 1] [0, 1]) = [(0, [False, True])] \<and>
   map_sum id denominator
     (accumulate [True, False] [2, 1] [1, 1] tied_tol_1e_08 [0, 1]
        (fst (get_comparable [True, False] [1, 1] [0, 1])) acc0) = Inr 1 \<and>
   concordance_index_censored [True, False] [1, 1] [2, 1] tied_tol_1e_08 [0, 1]
     = Inr (Fin 1, 1, 0, 0, 1) \<and>
   later_pairs [True, False] [1, 1] = 0"
  by code_simp

text \<open>
  C1. A validated input whose events all fall on one last time, with no censored sample
  at that time: the mapping is not empty, every mask is, the denominator stays zero and
  the division yields \<open>NaN\<close>.
\<close>

theorem nonempty_mapping_with_zero_denominator:
  "check_inputs [True, True] [1, 1] [1 / 2, 3 / 10]
     = Inr ([True, True], [1, 1], [1 / 2, 3 / 10]) \<and>
   is_argsort [1, 1] [0, 1] \<and>
   fst (get_comparable [True, True] [1, 1] [0, 1])
     = [(0, [False, False]), (1, [False, False])] \<and>
   map_sum id denominator
     (accumulate [True, True] [1 / 2, 3 / 10] [1, 1] tied_tol_1e_08 [0, 1]
        (fst (get_comparable [True, True] [1, 1] [0, 1])) acc0) = Inr 0 \<and>
   concordance_index_censored [True, True] [1, 1] [1 / 2, 3 / 10] tied_tol_1e_08 [0, 1]
     = Inr (NaN, 0, 0, 0, 0)"
  by code_simp

text \<open>
  C2. On such an input the returned \<open>cindex\<close> is \<open>NaN\<close>, which is not in the unit
  interval; here one censored sample precedes two events at one time. It is the only way
  out of the interval: by \<open>cindex_in_unit_interval\<close> the value lies in it whenever the
  data has a comparable pair, and by \<open>cindex_nan_without_pairs\<close> it is \<open>NaN\<close> whenever a
  value is returned for data that has none.
\<close>

theorem cindex_nan_on_valid_input:
  "check_inputs [False, True, True] [0, 1, 1] [1, 2, 3]
     = Inr ([False, True, True], [0, 1, 1], [1, 2, 3]) \<and>
   is_argsort [0, 1, 1] [0, 1, 2] \<and>
   concordance_index_censored [False, True, True] [0, 1, 1] [1, 2, 3] tied_tol_1e_08 [0, 1, 2]
     = Inr (NaN, 0, 0, 0, 0) \<and>
   \<not> in_unit_interval NaN"
  by code_simp

text \<open>
  C9. For a validated input with the unit weights of \<^verbatim>\<open>concordance_index_censored\<close>, a
  tolerance that is not negative and estimates of which no two are tied, the run of
  \<^verbatim>\<open>_estimate_concordance_index\<close> on the negated estimates has the concordant and
  discordant counts exchanged, no tied risk in either run, the same \<open>tied_time\<close> and the
  same denominator, and its numerator is the denominator minus the numerator of the first
  run. Its \<open>cindex\<close> is therefore the rounded quotient of these; before rounding the two
  quotients add up to one, but the quotient of the negated run is not the floating-point
  \<open>1 - cindex\<close>. Without \<open>0 \<le> tol\<close> the counts are not exchanged: under a negative tolerance
  no two estimates are tied, not even equal ones, and equal estimates are discordant in
  both runs.
\<close>

theorem negated_estimates_exchange_the_counts:
  assumes "check_inputs ev tm est = Inr (ev, tm, est)" and "is_argsort tm order"
    and "0 \<le> tol" and "no_ties tol est"
  shows "\<exists>a. accumulate ev est (replicate (length est) 1) tol order
               (fst (get_comparable ev tm order)) acc0 = Inr a \<and>
             tied_risk a = 0 \<and>
             (fst (get_comparable ev tm order) \<noteq> [] \<longrightarrow>
                estimate_concordance_index ev tm est (replicate (length est) 1) tol order
                  = Inr (fdiv (numerator a) (denominator a), concordant a, discordant a, 0,
                         tied_time_pairs ev tm) \<and>
                estimate_concordance_index ev tm (map uminus est) (replicate (length est) 1)
                    tol order
                  = Inr (fdiv (denominator a - numerator a) (denominator a), discordant a,
                         concordant a, 0, tied_time_pairs ev tm)) \<and>
             (denominator a \<noteq> 0 \<longrightarrow>
                (denominator a - numerator a) / denominator a = 1 - numerator a / denominator a)"
proof -
  let ?cs = "fst (get_comparable ev tm order)"
  let ?w = "replicate (length est) (1 :: rat)"
  let ?a = "fold (\<lambda>p. acc_step est ?w tol order (fst p) (snd p)) ?cs acc0"
  let ?b = "fold (\<lambda>p. acc_step (map uminus est) ?w tol order (fst p) (snd p)) ?cs acc0"
  from assms(1) have n: "2 \<le> length tm" and le: "length est = length tm"
    by (auto dest: check_inputs_Inr)
  have wf: "\<forall>p\<in>set ?cs. fst p < length order \<and> length (snd p) = length order \<and>
      ev ! (order ! fst p)"
    using get_comparable_wf [OF assms(2)] by blast
  from le have lw: "length ?w = length tm" by simp
  have ok: "\<forall>p\<in>set ?cs. entry_ok ev est ?w order (fst p) (snd p) \<and> ev ! (order ! fst p)"
    using get_comparable_entry_ok [OF assms(1,2) lw] by blast
  then have ok': "\<forall>p\<in>set ?cs. entry_ok ev (map uminus est) ?w order (fst p) (snd p) \<and>
      ev ! (order ! fst p)"
    by (simp add: entry_ok_def)
  have A: "accumulate ev est ?w tol order ?cs acc0 = Inr ?a" using ok by (rule accumulate_fold)
  have B: "accumulate ev (map uminus est) ?w tol order ?cs acc0 = Inr ?b"
    using ok' by (rule accumulate_fold)
  have o: "\<forall>k\<in>set order. k < length est"
    using argsort_set [OF assms(2)] le by simp
  have "\<forall>p\<in>set ?cs. fst p < length order \<and> length (snd p) = length order \<and>
      (\<forall>x\<in>set (take_idx est (bool_index order (snd p))).
         \<not> is_tie tol (est ! (order ! fst p)) x)"
    using wf comparable_no_ties [OF assms(1,2,4)] by blast
  with mirrored_acc0 have m: "mirrored ?a ?b" by (rule fold_mirrored [OF assms(3) o])
  have tt: "snd (get_comparable ev tm order) = tied_time_pairs ev tm"
    using assms(2) n by (rule tied_time_total)
  show ?thesis
  proof (intro exI [of _ ?a] conjI impI)
    show "accumulate ev est ?w tol order ?cs acc0 = Inr ?a" by (rule A)
    show "tied_risk ?a = 0" using m by (simp add: mirrored_def)
    show "(denominator ?a - numerator ?a) / denominator ?a = 1 - numerator ?a / denominator ?a"
      if "denominator ?a \<noteq> 0"
      using that by (simp add: diff_divide_distrib)
  next
    assume ne: "?cs \<noteq> []"
    with A m tt show "estimate_concordance_index ev tm est ?w tol order
        = Inr (fdiv (numerator ?a) (denominator ?a), concordant ?a, discordant ?a, 0,
               tied_time_pairs ev tm)"
      by (simp add: estimate_concordance_index_eq mirrored_def)
    from ne B m tt show "estimate_concordance_index ev tm (map uminus est) ?w tol order
        = Inr (fdiv (denominator ?a - numerator ?a) (denominator ?a), discordant ?a,
               concordant ?a, 0, tied_time_pairs ev tm)"
      by (simp add: estimate_concordance_index_eq mirrored_def)
  qed
qed

theorem negated_estimates_exchange_the_counts_witness:
  "check_inputs [True, True, False] [1, 2, 3] [2, 1, 3] = Inr ([True, True, False], [1, 2, 3], [2, 1, 3]) \<and>
   is_argsort [1, 2, 3] [0, 1, 2] \<and> 0 \<le> tied_tol_1e_08 \<and> no_ties tied_tol_1e_08 [2, 1, 3] \<and>
   fst (get_comparable [True, True, False] [1, 2, 3] [0, 1, 2]) \<noteq> [] \<and>
   estimate_concordance_index [True, True, False] [1, 2, 3] [2, 1, 3] [1, 1, 1] tied_tol_1e_08 [0, 1, 2]
     = Inr (Fin (6004799503160661 / 18014398509481984), 1, 2, 0, 0) \<and>
   (\<exists>c. estimate_concordance_index [True, True, False] [1, 2, 3] (map uminus [2, 1, 3]) [1, 1, 1]
          tied_tol_1e_08 [0, 1, 2] = Inr (c, 2, 1, 0, 0))"
proof -
  have h1: "check_inputs [True, True, False] [1, 2, 3] [2, 1, 3]
      = Inr ([True, True, False], [1, 2, 3], [2, 1, 3])"
    by (simp add: check_inputs_def)
  have h2: "is_argsort [1, 2, 3] [0, 1, 2]" by code_simp
  have h3: "0 \<le> tied_tol_1e_08" by (simp add: tied_tol_1e_08_def)
  have h4: "no_ties tied_tol_1e_08 [2, 1, 3]" by code_simp
  have ne: "fst (get_comparable [True, True, False] [1, 2, 3] [0, 1, 2]) \<noteq> []" by code_simp
  have r: "estimate_concordance_index [True, True, False] [1, 2, 3] [2, 1, 3] [1, 1, 1]
      tied_tol_1e_08 [0, 1, 2] = Inr (Fin (6004799503160661 / 18014398509481984), 1, 2, 0, 0)"
    by code_simp
  have w: "replicate (length [2, 1, 3 :: rat]) (1 :: rat) = [1, 1, 1]" by code_simp
  from negated_estimates_exchange_the_counts [OF h1 h2 h3 h4] ne r
  have "\<exists>c. estimate_concordance_index [True, True, False] [1, 2, 3] (map uminus [2, 1, 3]) [1, 1, 1]
          tied_tol_1e_08 [0, 1, 2] = Inr (c, 2, 1, 0, 0)"
    unfolding w by auto
  with h1 h2 h3 h4 ne r show ?thesis by (intro conjI)
qed

theorem negated_cindex_is_not_one_minus_cindex:
  "check_inputs [True, True, False] [1, 2, 3] [2, 1, 3] = Inr ([True, True, False], [1, 2, 3], [2, 1, 3]) \<and>
   is_argsort [1, 2, 3] [0, 1, 2] \<and> no_ties tied_tol_1e_08 [2, 1, 3] \<and>
   estimate_concordance_index [True, True, False] [1, 2, 3] [2, 1, 3] [1, 1, 1] tied_tol_1e_08 [0, 1, 2]
     = Inr (Fin (6004799503160661 / 18014398509481984), 1, 2, 0, 0) \<and>
   estimate_concordance_index [True, True, False] [1, 2, 3] (map uminus [2, 1, 3]) [1, 1, 1]
     tied_tol_1e_08 [0, 1, 2]
     = Inr (Fin (6004799503160661 / 9007199254740992), 2, 1, 0, 0) \<and>
   (6004799503160661 / 9007199254740992 :: rat) \<noteq> 1 - 6004799503160661 / 18014398509481984 \<and>
   6004799503160661 / 9007199254740992 \<noteq> fsub 1 (6004799503160661 / 18014398509481984) \<and>
   check_inputs [True, True, False] [1, 2, 3] [1, 1, 1] = Inr ([True, True, False], [1, 2, 3], [1, 1, 1]) \<and>
   no_ties (- 1) [1, 1, 1] \<and>
   estimate_concordance_index [True, True, False] [1, 2, 3] [1, 1, 1] [1, 1, 1] (- 1) [0, 1, 2]
     = Inr (Fin 0, 0, 3, 0, 0) \<and>
   estimate_concordance_index [True, True, False] [1, 2, 3] (map uminus [1, 1, 1]) [1, 1, 1] (- 1)
     [0, 1, 2]
     = Inr (Fin 0, 0, 3, 0, 0)"
  by code_simp




text \<open>
  C10. A flat array of \<open>n\<close> scalars is not accepted: reading \<^verbatim>\<open>y_pred.shape[1]\<close> raises
  IndexError on an array of one dimension. The same scalars given as a column, an array
  of shape \<open>n \<times> 1\<close> with \<open>n \<noteq> 1\<close> and \<^verbatim>\<open>type_pred\<close> absent or \<^verbatim>\<open>'hazard_ratio'\<close>, are taken
  for proportional-hazard risk scores: their negation goes to the core, whose first
  component (or error) is returned.
\<close>

theorem flat_predictions_need_a_column:
  "concordance_index y_true (Arr1 xs) type_pred order
     = Inl (IndexError ''tuple index out of range'') \<and>
   (length xs \<noteq> 1 \<and> length y_true \<noteq> 1 \<and>
    (type_pred = None \<or> type_pred = Some ''hazard_ratio'') \<longrightarrow>
      concordance_index y_true (Arr2 1 (map (\<lambda>x. [x]) xs)) type_pred order
      = map_sum id fst
          (concordance_index_censored (map (\<lambda>r. snd r \<noteq> 0) y_true) (map fst y_true)
             (map uminus xs) tied_tol_1e_08 order))"
  by (auto simp: Let_def comp_def)

theorem flat_predictions_need_a_column_witness:
  "concordance_index [(1, 1), (2, 1), (3, 0)] (Arr1 [2, 1, 3]) None [0, 1, 2]
     = Inl (IndexError ''tuple index out of range'') \<and>
   concordance_index [(1, 1), (2, 1), (3, 0)] (Arr2 1 [[2], [1], [3]]) None [0, 1, 2]
     = map_sum id fst
         (concordance_index_censored [True, True, False] [1, 2, 3] [- 2, - 1, - 3]
            tied_tol_1e_08 [0, 1, 2]) \<and>
   concordance_index [(1, 1), (2, 1), (3, 0)] (Arr2 1 [[2], [1], [3]]) None [0, 1, 2]
     = Inr (Fin (6004799503160661 / 9007199254740992))"
proof -
  note t = flat_predictions_need_a_column
    [of "[(1, 1), (2, 1), (3, 0)]" "[2, 1, 3]" None "[0, 1, 2]"]
  from t have a: "concordance_index [(1, 1), (2, 1), (3, 0)] (Arr1 [2, 1, 3]) None [0, 1, 2]
     = Inl (IndexError ''tuple index out of range'')" by (rule conjunct1)
  from t
  have b: "concordance_index [(1, 1), (2, 1), (3, 0)] (Arr2 1 [[2], [1], [3]]) None [0, 1, 2]
     = map_sum id fst
         (concordance_index_censored [True, True, False] [1, 2, 3] [- 2, - 1, - 3]
            tied_tol_1e_08 [0, 1, 2])"
    by (simp del: concordance_index.simps)
  have c: "concordance_index [(1, 1), (2, 1), (3, 0)] (Arr2 1 [[2], [1], [3]]) None [0, 1, 2]
     = Inr (Fin (6004799503160661 / 9007199254740992))" by code_simp
  show ?thesis by (intro conjI a b c)
qed

theorem flat_predictions_raise_index_error:
  "concordance_index [(1, 1), (2, 1), (3, 0)] (Arr1 [2, 1, 3]) None [0, 1, 2]
     = Inl (IndexError ''tuple index out of range'')"
  by simp

end
